theory Spec2Isabelle
  imports
    Main
    "HOL-Library.Word"
    "HOL-Library.Multiset"
    "HOL-Library.Char_ord"
    "HOL-Library.List_Lexorder"
begin

section \<open>Data model of the worker\<close>

text \<open>
  The worker (type \<open>Worker\<close>, methods \<open>DoMap\<close>, \<open>DoReduce\<close>, \<open>Shutdown\<close>,
  \<open>RegisterWithServer\<close>) is embedded function by function. Go's \<open>uint\<close> is taken at its
  64-bit width (amd64, arm64) and \<open>uint32\<close> at 32 bits, so the conversion
  \<open>uint32(numReducers)\<close> of \<open>DoMap\<close> is the truncation \<open>ucast\<close>.
\<close>

type_synonym uint = "64 word"
type_synonym uint32 = "32 word"
type_synonym int32 = "32 word"  \<comment> \<open>read with \<open>sint\<close>\<close>

datatype KeyValue = KeyValue (Key: string) (Value: string)

text \<open>
  A file written through \<open>json.Encoder\<close> and read through \<open>json.Decoder\<close> is a sequence
  of entries: what the successive calls of \<open>Decode\<close> return before the end of the file.
  \<open>Rec kv\<close> is a record that decodes to \<open>kv\<close>, \<open>Bad\<close> is a piece of data on which
  \<open>Decode\<close> returns an error other than \<open>io.EOF\<close>.
\<close>

datatype entry = Rec KeyValue | Bad

text \<open>
  The file system as the worker uses it: \<open>texts\<close> are the files read whole by
  \<open>ioutil.ReadFile\<close>, \<open>streams\<close> the files of JSON records, and \<open>denied\<close> the names
  for which \<open>os.Open\<close>, \<open>os.OpenFile\<close> and \<open>os.Create\<close> return an error whatever
  the flags (a missing directory, missing permissions).
\<close>

record fsys =
  texts :: "string \<rightharpoonup> string"
  streams :: "string \<rightharpoonup> entry list"
  denied :: "string \<Rightarrow> bool"

text \<open>Every call of \<open>checkErr\<close> with a non-nil error panics; the panics of the worker are:\<close>

datatype error =
    ReadError       \<comment> \<open>\<open>ioutil.ReadFile\<close> failed in \<open>DoMap\<close>\<close>
  | DivideByZero    \<comment> \<open>run-time panic of \<open>%\<close> with a zero divisor\<close>
  | IndexOutOfRange \<comment> \<open>run-time panic of a slice index\<close>
  | OpenError       \<comment> \<open>\<open>os.OpenFile\<close> or \<open>os.Open\<close> failed\<close>
  | CreateError     \<comment> \<open>\<open>os.Create\<close> failed in \<open>DoReduce\<close>\<close>

text \<open>
  The functions of package \<open>mapreduce\<close> that the worker calls and that are defined outside
  the worker's file are parameters of the model: the hash \<open>ihash\<close>, the package-private
  \<open>reduceInputName\<close> (on \<open>uint\<close> indices) and \<open>ReduceOutputName\<close>.
\<close>

record mr =
  ihash :: "string \<Rightarrow> uint32"
  reduceInputName_mr :: "string \<Rightarrow> uint \<Rightarrow> uint \<Rightarrow> string"
  ReduceOutputName :: "string \<Rightarrow> uint \<Rightarrow> string"

record Worker =
  jobName :: string
  mapF :: "string \<Rightarrow> string \<Rightarrow> KeyValue list"
  reduceF :: "string \<Rightarrow> string list \<Rightarrow> string"
  rpcListener :: bool  \<comment> \<open>whether the RPC listener is open\<close>
  active :: int32
  address :: string
  mapsDone :: int32
  reducesDone :: int32

section \<open>DoMap\<close>

text \<open>
  The partitioning loop of \<open>DoMap\<close>:
  \<open>reducerNum := ihash(kv.Key) % uint32(numReducers)\<close>, then
  \<open>partitions[reducerNum] = append(partitions[reducerNum], kv)\<close>.
\<close>

definition reducerNum_of :: "(string \<Rightarrow> uint32) \<Rightarrow> uint \<Rightarrow> KeyValue \<Rightarrow> uint32" where
  "reducerNum_of h numReducers kv = h (Key kv) mod (ucast numReducers :: uint32)"

fun partition_kvs ::
  "(string \<Rightarrow> uint32) \<Rightarrow> uint \<Rightarrow> KeyValue list \<Rightarrow> KeyValue list list
    \<Rightarrow> error + KeyValue list list" where
  "partition_kvs h numReducers [] partitions = Inr partitions"
| "partition_kvs h numReducers (kv # kvs) partitions =
     (if (ucast numReducers :: uint32) = 0 then Inl DivideByZero
      else let reducerNum = unat (reducerNum_of h numReducers kv) in
        if reducerNum < length partitions
        then partition_kvs h numReducers kvs
               (partitions[reducerNum := partitions ! reducerNum @ [kv]])
        else Inl IndexOutOfRange)"

text \<open>
  \<open>os.OpenFile\<close> with \<open>O_RDWR|O_CREATE|O_APPEND\<close>, the encoding of the partition's pairs
  and \<open>Close\<close>: the file is created when absent and the records are added at its end.
  The source ignores the error of \<open>Encode\<close>; the model has no failing \<open>Encode\<close>.
\<close>

definition stream_of :: "fsys \<Rightarrow> string \<Rightarrow> entry list" where
  "stream_of fs name = (case streams fs name of None \<Rightarrow> [] | Some es \<Rightarrow> es)"

definition append_file :: "fsys \<Rightarrow> string \<Rightarrow> KeyValue list \<Rightarrow> fsys" where
  "append_file fs name kvs =
     fs\<lparr>streams := (streams fs)(name \<mapsto> stream_of fs name @ map Rec kvs)\<rparr>"

text \<open>The saving loop \<open>for reducerNum, xPartition := range partitions\<close>.\<close>

fun save_partitions ::
  "mr \<Rightarrow> string \<Rightarrow> uint \<Rightarrow> nat \<Rightarrow> KeyValue list list \<Rightarrow> fsys \<Rightarrow> error + fsys" where
  "save_partitions pkg job mapperNum reducerNum [] fs = Inr fs"
| "save_partitions pkg job mapperNum reducerNum (xPartition # rest) fs =
     (let outputFileName = reduceInputName_mr pkg job mapperNum (of_nat reducerNum) in
      if denied fs outputFileName then Inl OpenError
      else save_partitions pkg job mapperNum (Suc reducerNum) rest
             (append_file fs outputFileName xPartition))"

definition DoMap :: "mr \<Rightarrow> Worker \<Rightarrow> fsys \<Rightarrow> string \<Rightarrow> uint \<Rightarrow> uint \<Rightarrow> error + fsys" where
  "DoMap pkg w fs inputFileName mapperNum numReducers =
     (case (if denied fs inputFileName then None else texts fs inputFileName) of
        None \<Rightarrow> Inl ReadError
      | Some inputFileContent \<Rightarrow>
          let kvs = mapF w inputFileName inputFileContent in
          (case partition_kvs (ihash pkg) numReducers kvs (replicate (unat numReducers) []) of
             Inl e \<Rightarrow> Inl e
           | Inr partitions \<Rightarrow> save_partitions pkg (jobName w) mapperNum 0 partitions fs))"

section \<open>DoReduce\<close>

text \<open>
  \<open>kvMap\<close> is a Go \<open>map[string][]string\<close>. Reading a key that is absent gives the nil
  slice, which \<open>append\<close> treats as the empty list.
\<close>

type_synonym kvmap = "string \<rightharpoonup> string list"

definition lookup :: "kvmap \<Rightarrow> string \<Rightarrow> string list" where
  "lookup kvMap key = (case kvMap key of None \<Rightarrow> [] | Some vals \<Rightarrow> vals)"

text \<open>
  The decoding loop
  \<open>for err := decoder.Decode(&kv); err == nil; err = decoder.Decode(&kv)\<close>:
  it ends at the first error of \<open>Decode\<close>, which is \<open>io.EOF\<close> at the end of the file and
  any other error at data that does not decode. The error is not looked at again.
\<close>

fun decode_all :: "entry list \<Rightarrow> kvmap \<Rightarrow> kvmap" where
  "decode_all [] kvMap = kvMap"
| "decode_all (Bad # rest) kvMap = kvMap"
| "decode_all (Rec kv # rest) kvMap =
     decode_all rest (kvMap(Key kv \<mapsto> lookup kvMap (Key kv) @ [Value kv]))"

text \<open>
  The loop \<open>for mapNumber := uint(0); mapNumber < numMappers; mapNumber++\<close>, entered at
  \<open>mapNumber\<close>. \<open>os.Open\<close> fails on a missing file.
\<close>

function read_inputs ::
  "mr \<Rightarrow> string \<Rightarrow> fsys \<Rightarrow> uint \<Rightarrow> uint \<Rightarrow> uint \<Rightarrow> kvmap \<Rightarrow> error + kvmap" where
  "read_inputs pkg job fs reducerNum numMappers mapNumber kvMap =
     (if mapNumber < numMappers then
        let reducerInputFileName = reduceInputName_mr pkg job mapNumber reducerNum in
        if denied fs reducerInputFileName then Inl OpenError
        else (case streams fs reducerInputFileName of
                None \<Rightarrow> Inl OpenError
              | Some es \<Rightarrow>
                  read_inputs pkg job fs reducerNum numMappers (mapNumber + 1)
                    (decode_all es kvMap))
      else Inr kvMap)"
  by pat_completeness auto
termination
proof (relation "measure (\<lambda>(pkg, job, fs, reducerNum, numMappers, mapNumber, kvMap).
                   unat numMappers - unat mapNumber)")
  show "wf (measure (\<lambda>(pkg :: mr, job :: string, fs :: fsys, reducerNum :: uint,
                        numMappers :: uint, mapNumber :: uint, kvMap :: kvmap).
                   unat numMappers - unat mapNumber))"
    by simp
next
  fix pkg :: mr and job :: string and fs :: fsys and reducerNum numMappers mapNumber :: uint
    and kvMap :: kvmap and x :: string and x2 :: "entry list"
  assume lt: "mapNumber < numMappers"
  then have "mapNumber + 1 \<noteq> 0"
    by (metis add.commute add.right_inverse add_left_cancel word_order.extremum_strict)
  then have "unat (mapNumber + 1) = Suc (unat mapNumber)"
    by (simp add: unatSuc add.commute)
  moreover from lt have "unat mapNumber < unat numMappers"
    by (simp add: word_less_nat_alt)
  ultimately show
    "((pkg, job, fs, reducerNum, numMappers, mapNumber + 1, decode_all x2 kvMap),
      (pkg, job, fs, reducerNum, numMappers, mapNumber, kvMap))
     \<in> measure (\<lambda>(pkg, job, fs, reducerNum, numMappers, mapNumber, kvMap).
                   unat numMappers - unat mapNumber)"
    by simp
qed

declare read_inputs.simps [simp del]

text \<open>
  \<open>for key, vals := range kvMap\<close> visits every key of the map once, in an order that Go
  leaves unspecified and that changes from run to run. The order of one run is the
  parameter \<open>keys\<close>; it is a range order of the map when it enumerates the keys of the
  map without repetition.
\<close>

definition range_order :: "kvmap \<Rightarrow> string list \<Rightarrow> bool" where
  "range_order kvMap keys \<longleftrightarrow> distinct keys \<and> set keys = dom kvMap"

definition reduce_all :: "Worker \<Rightarrow> kvmap \<Rightarrow> string list \<Rightarrow> KeyValue list" where
  "reduce_all w kvMap keys = map (\<lambda>key. KeyValue key (reduceF w key (lookup kvMap key))) keys"

text \<open>\<open>os.Create\<close> truncates the file; the records of \<open>opKvList\<close> are then encoded in it.\<close>

definition create_file :: "fsys \<Rightarrow> string \<Rightarrow> KeyValue list \<Rightarrow> fsys" where
  "create_file fs name kvs = fs\<lparr>streams := (streams fs)(name \<mapsto> map Rec kvs)\<rparr>"

definition DoReduce ::
  "mr \<Rightarrow> Worker \<Rightarrow> string list \<Rightarrow> fsys \<Rightarrow> uint \<Rightarrow> uint \<Rightarrow> error + fsys" where
  "DoReduce pkg w keys fs reducerNum numMappers =
     (case read_inputs pkg (jobName w) fs reducerNum numMappers 0 Map.empty of
        Inl e \<Rightarrow> Inl e
      | Inr kvMap \<Rightarrow>
          let opKvList = reduce_all w kvMap keys;
              rOutFileName = ReduceOutputName pkg (jobName w) reducerNum
          in if denied fs rOutFileName then Inl CreateError
             else Inr (create_file fs rOutFileName opKvList))"

text \<open>
  Three notions to state what \<open>DoReduce\<close> computes: the pairs that the decoding loop
  takes from a file (those before the first entry that does not decode), all the pairs
  recorded in a file, and the values of a key in a list of pairs, in the order of the
  list.
\<close>

fun records :: "entry list \<Rightarrow> KeyValue list" where
  "records [] = []"
| "records (Bad # rest) = []"
| "records (Rec kv # rest) = kv # records rest"

fun pairs :: "entry list \<Rightarrow> KeyValue list" where
  "pairs [] = []"
| "pairs (Bad # rest) = pairs rest"
| "pairs (Rec kv # rest) = kv # pairs rest"

definition values_of :: "string \<Rightarrow> KeyValue list \<Rightarrow> string list" where
  "values_of key kvs = map Value (filter (\<lambda>kv. Key kv = key) kvs)"

text \<open>
  The partition file of mapper \<open>m\<close> for the reducer, and the pairs that the reducer's
  loops take from the files of the mappers \<open>ms\<close>, in file-read order.
\<close>

definition input_of :: "mr \<Rightarrow> string \<Rightarrow> fsys \<Rightarrow> uint \<Rightarrow> nat \<Rightarrow> entry list" where
  "input_of pkg job fs reducerNum m = stream_of fs (reduceInputName_mr pkg job (of_nat m) reducerNum)"

definition pairs_read :: "mr \<Rightarrow> string \<Rightarrow> fsys \<Rightarrow> uint \<Rightarrow> nat list \<Rightarrow> KeyValue list" where
  "pairs_read pkg job fs reducerNum ms =
     concat (map (\<lambda>m. records (input_of pkg job fs reducerNum m)) ms)"

section \<open>Shutdown and registration\<close>

definition Shutdown :: "Worker \<Rightarrow> Worker" where
  "Shutdown w = w\<lparr>active := 0, rpcListener := False\<rparr>"

definition IsActive :: "Worker \<Rightarrow> bool" where
  "IsActive w \<longleftrightarrow> active w = 1"

text \<open>
  What \<open>RegisterWithServer\<close> does besides changing the worker is kept as a trace of
  events: the calls of \<open>callMaster("Register", ...)\<close> with the address sent, the sleeps
  with their length in milliseconds, and the lines printed. The outcome of the RPC is
  not decided by the worker: \<open>callMaster n\<close> is the result of the call made in iteration
  \<open>n\<close> of the loop.
\<close>

datatype event = Register string | Sleep nat | Println string

function register_loop ::
  "(nat \<Rightarrow> bool) \<Rightarrow> string \<Rightarrow> nat \<Rightarrow> bool \<Rightarrow> event list \<Rightarrow> bool \<times> event list" where
  "register_loop callMaster addr i ok tr =
     (if i < 40 \<and> \<not> ok then
        let ok' = callMaster i;
            tr1 = tr @ [Register addr];
            tr2 = (if \<not> ok'
                   then tr1 @ [Sleep 250] @
                        (if i mod 10 = 0 then [Println ''Retrying registration attempt...'']
                         else [])
                   else tr1)
        in register_loop callMaster addr (i + 1) ok' tr2
      else (ok, tr))"
  by pat_completeness auto
termination
  by (relation "measure (\<lambda>(callMaster, addr, i, ok, tr). 40 - i)") auto

declare register_loop.simps [simp del]

definition RegisterWithServer :: "(nat \<Rightarrow> bool) \<Rightarrow> Worker \<Rightarrow> Worker \<times> event list" where
  "RegisterWithServer callMaster w =
     (case register_loop callMaster (address w) 0 False [] of
        (ok, tr) \<Rightarrow>
          if \<not> ok then (Shutdown w, tr @ [Println ''Failed to register. Shutting down.''])
          else (w, tr @ [Println ''Registered successfully!'']))"

text \<open>
  To state what the registration loop does: the events of an attempt that fails in
  iteration \<open>i\<close>, and the number of registration calls in a trace.
\<close>

definition failed_attempt :: "string \<Rightarrow> nat \<Rightarrow> event list" where
  "failed_attempt addr i =
     [Register addr, Sleep 250] @
     (if i mod 10 = 0 then [Println ''Retrying registration attempt...''] else [])"

fun attempts :: "event list \<Rightarrow> nat" where
  "attempts [] = 0"
| "attempts (Register addr # tr) = Suc (attempts tr)"
| "attempts (e # tr) = attempts tr"

text \<open>Two masters: one that answers from the third call on, one that never answers.\<close>

definition late_master :: "nat \<Rightarrow> bool" where
  "late_master n \<longleftrightarrow> 2 \<le> n"

definition absent_master :: "nat \<Rightarrow> bool" where
  "absent_master n \<longleftrightarrow> False"

section \<open>Naming of the partition files\<close>

text \<open>
  \<open>strconv.Itoa\<close> of the Go library: the decimal digits of the number, after a minus
  sign when it is negative.
\<close>

definition digit :: "nat \<Rightarrow> char" where
  "digit d = ''0123456789'' ! d"

function digits :: "nat \<Rightarrow> string" where
  "digits n = (if n < 10 then [digit n] else digits (n div 10) @ [digit (n mod 10)])"
  by pat_completeness auto
termination
  by (relation "measure id") auto

declare digits.simps [simp del]

definition Itoa :: "int \<Rightarrow> string" where
  "Itoa i = (if i < 0 then CHR ''-'' # digits (nat (- i)) else digits (nat i))"

text \<open>
  \<open>reduceInputName\<close> of the PageRank driver, which its comment calls a copy of the private
  function of package \<open>mapreduce\<close>. The constant \<open>mr.DataOutputDir\<close> is defined outside the
  driver and is the parameter \<open>DataOutputDir\<close>. The indices are Go \<open>int\<close>s, a range of the
  integers.
\<close>

definition reduceInputName :: "string \<Rightarrow> string \<Rightarrow> int \<Rightarrow> int \<Rightarrow> string" where
  "reduceInputName DataOutputDir job mapperNum reducerNum =
     DataOutputDir @ ''mr.'' @ job @ ''-'' @ Itoa mapperNum @ ''-'' @ Itoa reducerNum"

text \<open>The number that a string of decimal digits stands for.\<close>

definition digit_val :: "string \<Rightarrow> nat" where
  "digit_val s = foldl (\<lambda>a c. 10 * a + (of_char c - 48)) 0 s"

section \<open>An instance of the package functions\<close>

text \<open>
  Modelled from the spec: \<open>ihash\<close>, absent from the sources, is a fixed, deterministic
  32-bit non-cryptographic string hash shared by all workers. The instance used to run
  the model on concrete inputs is FNV-1a.
\<close>

definition fnv32a :: "string \<Rightarrow> uint32" where
  "fnv32a s = foldl (\<lambda>h c. (xor h (of_char c)) * 16777619) 2166136261 s"

text \<open>
  Modelled from the spec: the package-private \<open>reduceInputName\<close> and
  \<open>ReduceOutputName\<close>, absent from the sources, name the partition file by
  (jobName, mapperIndex, reducerIndex) and the reducer's output file by
  (jobName, reducerIndex). The instance takes the driver's copy of \<open>reduceInputName\<close>
  at the indices converted with \<open>int(...)\<close>, and a name of the same shape for the output.
\<close>

definition package :: "string \<Rightarrow> mr" where
  "package DataOutputDir =
     \<lparr>ihash = fnv32a,
      reduceInputName_mr = (\<lambda>job mapperNum reducerNum.
         reduceInputName DataOutputDir job (sint mapperNum) (sint reducerNum)),
      ReduceOutputName = (\<lambda>job reducerNum.
         DataOutputDir @ ''mr.'' @ job @ ''-res-'' @ Itoa (sint reducerNum))\<rparr>"

text \<open>
  A worker whose map function emits one pair per character of the input, keyed by the
  character, and whose reduce function concatenates the values; and a file system with
  one input file.
\<close>

definition sample_worker :: Worker where
  "sample_worker =
     \<lparr>jobName = ''job'',
      mapF = (\<lambda>fileName contents. map (\<lambda>c. KeyValue [c] fileName) contents),
      reduceF = (\<lambda>key vals. concat vals),
      rpcListener = True, active = 1, address = ''worker-1'',
      mapsDone = 0, reducesDone = 0\<rparr>"

definition sample_fs :: fsys where
  "sample_fs = \<lparr>texts = [''in'' \<mapsto> ''aba''], streams = Map.empty, denied = (\<lambda>name. False)\<rparr>"

definition sample_fs_mapped :: fsys where
  "sample_fs_mapped =
     sample_fs\<lparr>streams :=
       [''out/mr.job-0-0'' \<mapsto> [Rec (KeyValue ''a'' ''in''), Rec (KeyValue ''a'' ''in'')],
        ''out/mr.job-0-1'' \<mapsto> [Rec (KeyValue ''b'' ''in'')]]\<rparr>"

text \<open>
  Partition files for reducer 0 written by two mappers, the same with an entry that does
  not decode in the first file, and the map that the reducer builds from the former.
\<close>

definition sample_fs_shuffled :: fsys where
  "sample_fs_shuffled =
     \<lparr>texts = Map.empty,
      streams = [''out/mr.job-0-0'' \<mapsto> [Rec (KeyValue ''a'' ''1''), Rec (KeyValue ''c'' ''2'')],
                 ''out/mr.job-1-0'' \<mapsto> [Rec (KeyValue ''c'' ''3''), Rec (KeyValue ''a'' ''4'')]],
      denied = (\<lambda>name. False)\<rparr>"

definition sample_fs_corrupt :: fsys where
  "sample_fs_corrupt =
     \<lparr>texts = Map.empty,
      streams = [''out/mr.job-0-0'' \<mapsto> [Rec (KeyValue ''a'' ''1''), Bad, Rec (KeyValue ''c'' ''2'')],
                 ''out/mr.job-1-0'' \<mapsto> [Rec (KeyValue ''c'' ''3'')]],
      denied = (\<lambda>name. False)\<rparr>"

definition sample_kvMap :: kvmap where
  "sample_kvMap = [''a'' \<mapsto> [''1'', ''4''], ''c'' \<mapsto> [''2'', ''3'']]"

section \<open>The master: merge and scheduling\<close>

text \<open>
  The master of package \<open>mapreduce\<close> (\<open>ParallelMaster\<close>, its \<open>Start\<close> and \<open>Merge\<close>) is
  called by the PageRank driver and is defined outside the files at hand. Its two
  operations below follow the written specification of the system.
\<close>

text \<open>
  Modelled from the spec: \<open>Merge\<close>, absent from the sources, reads every reducer's output
  file. It is available once all reduce tasks are completed and fails fast before: the
  result is \<open>None\<close> when the output file of a reducer does not exist. A reader decodes
  the records of a file one at a time until the stream is exhausted; the model reads a
  file as the worker's loop does (\<open>records\<close>).
\<close>

fun read_outputs :: "mr \<Rightarrow> string \<Rightarrow> fsys \<Rightarrow> nat list \<Rightarrow> KeyValue list option" where
  "read_outputs pkg job fs [] = Some []"
| "read_outputs pkg job fs (r # rs) =
     (case streams fs (ReduceOutputName pkg job (of_nat r)) of
        None \<Rightarrow> None
      | Some es \<Rightarrow>
          (case read_outputs pkg job fs rs of
             None \<Rightarrow> None
           | Some kvs \<Rightarrow> Some (records es @ kvs)))"

text \<open>
  Modelled from the spec: \<open>Merge\<close>, absent from the sources, combines all pairs into one
  file sorted by key ascending in byte-wise string order, with one entry per key. The
  spec does not say which value stands for a key that occurs more than once; the model
  keeps the value read last. The order on strings is the lexicographic order of the
  character lists, characters compared by their byte value.
\<close>

definition last_value :: "KeyValue list \<Rightarrow> string \<Rightarrow> string" where
  "last_value kvs key =
     (case map_of (rev (map (\<lambda>kv. (Key kv, Value kv)) kvs)) key of
        None \<Rightarrow> [] | Some v \<Rightarrow> v)"

definition merge_entries :: "KeyValue list \<Rightarrow> KeyValue list" where
  "merge_entries kvs =
     map (\<lambda>key. KeyValue key (last_value kvs key)) (sort (remdups (map Key kvs)))"

text \<open>
  Modelled from the spec: \<open>Merge\<close>, absent from the sources, writes the merged file and
  returns its path. The path is the parameter \<open>mergeName\<close>.
\<close>

definition Merge :: "mr \<Rightarrow> string \<Rightarrow> uint \<Rightarrow> string \<Rightarrow> fsys \<Rightarrow> (string \<times> fsys) option" where
  "Merge pkg job numReducers mergeName fs =
     (case read_outputs pkg job fs [0..<unat numReducers] of
        None \<Rightarrow> None
      | Some kvs \<Rightarrow> Some (mergeName, create_file fs mergeName (merge_entries kvs)))"

text \<open>
  Modelled from the spec: the data of the scheduler, absent from the sources. A job has
  a name, its input files (one map task each) and a number of reducers; a task is a map
  task of an input file and mapper index or a reduce task of a reducer index; a task is
  idle, in progress at a worker, or completed; a worker handle is idle, busy or dead.
\<close>

record Job =
  job_name :: string
  job_inputs :: "string list"
  job_reducers :: nat

datatype Task = MapTask string nat | ReduceTask nat

datatype TaskState = Idle | InProgress string | Completed

datatype WorkerState = WIdle | Busy | Dead

datatype Phase = MapPhase | ReducePhase | Finished

record Scheduler =
  phase :: Phase
  mapState :: "TaskState list"
  reduceState :: "TaskState list"
  workers :: "string \<rightharpoonup> WorkerState"
  queue :: "Task list"

text \<open>
  Modelled from the spec: the start of a job in the scheduler, absent from the sources.
  The tasks are enumerated from the inputs and the reducers; the work queue is seeded
  with the idle tasks of the map phase and no worker is registered yet.
\<close>

definition map_tasks :: "Job \<Rightarrow> Task list" where
  "map_tasks j = map (\<lambda>(i, f). MapTask f i) (enumerate 0 (job_inputs j))"

definition reduce_tasks :: "Job \<Rightarrow> Task list" where
  "reduce_tasks j = map ReduceTask [0..<job_reducers j]"

definition init :: "Job \<Rightarrow> Scheduler" where
  "init j = \<lparr>phase = MapPhase,
            mapState = replicate (length (job_inputs j)) Idle,
            reduceState = replicate (job_reducers j) Idle,
            workers = Map.empty,
            queue = map_tasks j\<rparr>"

text \<open>
  Modelled from the spec: the state of a task in the scheduler, absent from the sources,
  read and written by the task's index; a phase is complete when every task of the
  phase is completed.
\<close>

fun task_state :: "Scheduler \<Rightarrow> Task \<Rightarrow> TaskState option" where
  "task_state s (MapTask f i) =
     (if i < length (mapState s) then Some (mapState s ! i) else None)"
| "task_state s (ReduceTask r) =
     (if r < length (reduceState s) then Some (reduceState s ! r) else None)"

fun set_task_state :: "Scheduler \<Rightarrow> Task \<Rightarrow> TaskState \<Rightarrow> Scheduler" where
  "set_task_state s (MapTask f i) st = s\<lparr>mapState := (mapState s)[i := st]\<rparr>"
| "set_task_state s (ReduceTask r) st = s\<lparr>reduceState := (reduceState s)[r := st]\<rparr>"

definition all_completed :: "TaskState list \<Rightarrow> bool" where
  "all_completed sts \<longleftrightarrow> list_all (\<lambda>st. st = Completed) sts"

text \<open>
  Modelled from the spec: the transitions of the scheduler, absent from the sources.
  The mutations of the worker pool and of the task queue are serialized, so a run is a
  sequence of actions:
  \<^item> \<open>RegisterWorker a\<close>: a worker registers and its handle is idle;
  \<^item> \<open>Dispatch t a\<close>: the task popped from the queue is sent to the idle worker \<open>a\<close>; the
    task is in progress at \<open>a\<close> and \<open>a\<close> is busy;
  \<^item> \<open>Success t a\<close>: the RPC returns; the task is completed and \<open>a\<close> is idle again;
  \<^item> \<open>Failure t a\<close>: the RPC fails; \<open>a\<close> is dead, the task is idle and back in the queue;
  \<^item> \<open>NextPhase\<close>: every task of the phase is completed; after the map phase the queue
    is seeded with the reduce tasks, after the reduce phase the job is finished.
  An action that is not enabled has no successor state.
\<close>

datatype action =
    RegisterWorker string
  | Dispatch Task string
  | Success Task string
  | Failure Task string
  | NextPhase

fun step :: "Job \<Rightarrow> Scheduler \<Rightarrow> action \<Rightarrow> Scheduler option" where
  "step j s (RegisterWorker a) = Some (s\<lparr>workers := (workers s)(a \<mapsto> WIdle)\<rparr>)"
| "step j s (Dispatch t a) =
     (case queue s of
        [] \<Rightarrow> None
      | t' # rest \<Rightarrow>
          if t' = t \<and> workers s a = Some WIdle \<and> task_state s t = Some Idle
          then Some (set_task_state (s\<lparr>queue := rest, workers := (workers s)(a \<mapsto> Busy)\<rparr>)
                       t (InProgress a))
          else None)"
| "step j s (Success t a) =
     (if task_state s t = Some (InProgress a)
      then Some (set_task_state (s\<lparr>workers := (workers s)(a \<mapsto> WIdle)\<rparr>) t Completed)
      else None)"
| "step j s (Failure t a) =
     (if task_state s t = Some (InProgress a)
      then Some (set_task_state
                   (s\<lparr>workers := (workers s)(a \<mapsto> Dead), queue := queue s @ [t]\<rparr>) t Idle)
      else None)"
| "step j s NextPhase =
     (case phase s of
        MapPhase \<Rightarrow>
          if all_completed (mapState s)
          then Some (s\<lparr>phase := ReducePhase, queue := reduce_tasks j\<rparr>) else None
      | ReducePhase \<Rightarrow>
          if all_completed (reduceState s) then Some (s\<lparr>phase := Finished\<rparr>) else None
      | Finished \<Rightarrow> None)"

text \<open>
  Modelled from the spec: an execution of the scheduler, absent from the sources, is a
  sequence of enabled actions from a state.
\<close>

fun run :: "Job \<Rightarrow> Scheduler \<Rightarrow> action list \<Rightarrow> Scheduler option" where
  "run j s [] = Some s"
| "run j s (a # as) = (case step j s a of None \<Rightarrow> None | Some s' \<Rightarrow> run j s' as)"

text \<open>
  The pairs that \<open>Merge\<close> reads from the output files of the reducers \<open>rs\<close>, in the order
  of reading.
\<close>

definition outputs_read :: "mr \<Rightarrow> string \<Rightarrow> fsys \<Rightarrow> nat list \<Rightarrow> KeyValue list" where
  "outputs_read pkg job fs rs =
     concat (map (\<lambda>r. records (stream_of fs (ReduceOutputName pkg job (of_nat r)))) rs)"

text \<open>
  The invariant behind the barrier: during the map phase the queue holds map tasks only
  and every reduce task is idle; after the map phase every map task is completed.
\<close>

fun is_map_task :: "Task \<Rightarrow> bool" where
  "is_map_task (MapTask f i) = True"
| "is_map_task (ReduceTask r) = False"

definition barrier_inv :: "Job \<Rightarrow> Scheduler \<Rightarrow> bool" where
  "barrier_inv j s \<longleftrightarrow>
     length (mapState s) = length (job_inputs j) \<and>
     (phase s = MapPhase \<longrightarrow>
        list_all is_map_task (queue s) \<and> list_all (\<lambda>st. st = Idle) (reduceState s)) \<and>
     (phase s \<noteq> MapPhase \<longrightarrow> all_completed (mapState s))"

text \<open>
  A job with one input file and one reducer; a run in which the first worker fails on
  the map task, the second completes it and the scheduler moves to the reduce phase;
  the state that the run reaches. Output files of two reducers, and the file system
  after merging them.
\<close>

definition sample_job :: Job where
  "sample_job = \<lparr>job_name = ''job'', job_inputs = [''in''], job_reducers = 1\<rparr>"

definition sample_run :: "action list" where
  "sample_run = [RegisterWorker ''w1'', RegisterWorker ''w2'',
                 Dispatch (MapTask ''in'' 0) ''w1'', Failure (MapTask ''in'' 0) ''w1'',
                 Dispatch (MapTask ''in'' 0) ''w2'', Success (MapTask ''in'' 0) ''w2'', NextPhase]"

definition sample_sched :: Scheduler where
  "sample_sched = \<lparr>phase = ReducePhase, mapState = [Completed], reduceState = [Idle],
      workers = [''w1'' \<mapsto> Dead, ''w2'' \<mapsto> WIdle], queue = [ReduceTask 0]\<rparr>"

definition sample_fs_reduced :: fsys where
  "sample_fs_reduced =
     \<lparr>texts = Map.empty,
      streams = [''out/mr.job-res-0'' \<mapsto> [Rec (KeyValue ''c'' ''23''), Rec (KeyValue ''a'' ''14'')],
                 ''out/mr.job-res-1'' \<mapsto> [Rec (KeyValue ''b'' ''5'')]],
      denied = (\<lambda>name. False)\<rparr>"

definition sample_fs_merged :: fsys where
  "sample_fs_merged =
     create_file sample_fs_reduced ''out/mr.job-merged''
       [KeyValue ''a'' ''14'', KeyValue ''b'' ''5'', KeyValue ''c'' ''23'']"

section \<open>Properties of DoMap\<close>

subsection \<open>The partitioning loop\<close>

lemma partition_kvs_Inr:
  "partition_kvs h n kvs ps = Inr ps' \<Longrightarrow>
   length ps' = length ps \<and>
   (\<forall>r<length ps. ps' ! r = ps ! r @ filter (\<lambda>kv. unat (reducerNum_of h n kv) = r) kvs)"
proof (induction kvs arbitrary: ps)
  case Nil
  then show ?case by simp
next
  case (Cons kv kvs)
  let ?i = "unat (reducerNum_of h n kv)"
  from Cons.prems have nz: "(ucast n :: uint32) \<noteq> 0" and lt: "?i < length ps"
    and rec: "partition_kvs h n kvs (ps[?i := ps ! ?i @ [kv]]) = Inr ps'"
    by (auto simp: Let_def split: if_splits)
  from Cons.IH [OF rec] show ?case
    by (auto simp: nth_list_update)
qed

lemma reducerNum_of_less:
  assumes "(ucast n :: uint32) \<noteq> 0"
  shows "unat (reducerNum_of h n kv) < unat n"
proof -
  let ?d = "ucast n :: uint32"
  from assms have "0 < ?d" by (simp add: word_neq_0_conv)
  then have "h (Key kv) mod ?d < ?d" by (rule word_mod_less_divisor)
  then have "unat (reducerNum_of h n kv) < unat ?d"
    by (simp add: reducerNum_of_def word_less_nat_alt)
  also have "unat ?d \<le> unat n"
    by (simp add: unsigned_ucast_eq)
  finally show ?thesis .
qed

lemma partition_kvs_zero:
  "(ucast n :: uint32) = 0 \<Longrightarrow> partition_kvs h n (kv # kvs) ps = Inl DivideByZero"
  by simp

text \<open>
  When the low 32 bits of \<open>numReducers\<close> are not all zero, the loop neither divides by
  zero nor leaves the slice made by \<open>make([][]KeyValue, numReducers)\<close>.
\<close>

lemma partition_kvs_total:
  "(ucast n :: uint32) \<noteq> 0 \<Longrightarrow> length ps = unat n \<Longrightarrow> \<exists>ps'. partition_kvs h n kvs ps = Inr ps'"
proof (induction kvs arbitrary: ps)
  case Nil
  then show ?case by simp
next
  case (Cons kv kvs)
  from Cons.prems have lt: "unat (reducerNum_of h n kv) < length ps"
    by (simp add: reducerNum_of_less)
  with Cons.prems Cons.IH [of "ps[unat (reducerNum_of h n kv) :=
      ps ! unat (reducerNum_of h n kv) @ [kv]]"]
  show ?case by (simp add: Let_def)
qed

subsection \<open>Words as indices\<close>

lemma unat_ucast_up: "unat (ucast (x :: uint32) :: uint) = unat x"
proof -
  have "unat x < 2 ^ 32" using unsigned_less [of x] by simp
  then have "unat x < 2 ^ 64" by simp
  then show ?thesis by (simp add: unsigned_ucast_eq take_bit_nat_eq_self)
qed

lemma unat_of_nat_below: "i < unat (n :: uint) \<Longrightarrow> unat (of_nat i :: uint) = i"
  by (rule le_unat_uoi [of i n]) simp

lemma word_below_image: "{r :: uint. r < n} = of_nat ` {..<unat n}"
proof (intro equalityI subsetI)
  fix r assume "r \<in> {r. r < n}"
  then have "unat r < unat n" by (simp add: word_less_nat_alt)
  moreover have "r = of_nat (unat r)" by simp
  ultimately show "r \<in> of_nat ` {..<unat n}" by blast
next
  fix r :: uint assume "r \<in> of_nat ` {..<unat n}"
  then obtain i where i: "i < unat n" "r = of_nat i" by auto
  then show "r \<in> {r. r < n}" by (simp add: word_less_nat_alt unat_of_nat_below)
qed

lemma of_nat_inj_below: "inj_on (of_nat :: nat \<Rightarrow> uint) {..<unat (n::uint)}"
  by (rule inj_on_inverseI [where g = unat]) (simp add: unat_of_nat_below)

lemma card_word_below: "card {r :: uint. r < n} = unat n"
  by (simp add: word_below_image card_image of_nat_inj_below)

subsection \<open>The saving loop\<close>

lemma append_file_simps:
  "texts (append_file fs f kvs) = texts fs"
  "denied (append_file fs f kvs) = denied fs"
  "streams (append_file fs f kvs) f = Some (stream_of fs f @ map Rec kvs)"
  "g \<noteq> f \<Longrightarrow> streams (append_file fs f kvs) g = streams fs g"
  "g \<noteq> f \<Longrightarrow> stream_of (append_file fs f kvs) g = stream_of fs g"
  by (simp_all add: append_file_def stream_of_def)

lemma save_partitions_Inr:
  assumes "save_partitions pkg job m k ps fs = Inr fs'"
    and "\<forall>i<length ps. \<forall>j<length ps.
           reduceInputName_mr pkg job m (of_nat (k + i)) =
           reduceInputName_mr pkg job m (of_nat (k + j)) \<longrightarrow> i = j"
  shows "texts fs' = texts fs \<and> denied fs' = denied fs \<and>
    (\<forall>i<length ps. streams fs' (reduceInputName_mr pkg job m (of_nat (k + i))) =
        Some (stream_of fs (reduceInputName_mr pkg job m (of_nat (k + i))) @ map Rec (ps ! i))) \<and>
    (\<forall>f. (\<forall>i<length ps. f \<noteq> reduceInputName_mr pkg job m (of_nat (k + i))) \<longrightarrow>
        streams fs' f = streams fs f)"
  using assms
proof (induction ps arbitrary: k fs)
  case Nil
  then show ?case by simp
next
  case (Cons x ps)
  let ?N = "\<lambda>i. reduceInputName_mr pkg job m (of_nat i)"
  let ?fs1 = "append_file fs (?N k) x"
  from Cons.prems(1) have nd: "\<not> denied fs (?N k)"
    and rec: "save_partitions pkg job m (Suc k) ps ?fs1 = Inr fs'"
    by (auto simp: Let_def split: if_splits)
  have inj: "\<And>i j. i < Suc (length ps) \<Longrightarrow> j < Suc (length ps) \<Longrightarrow>
      ?N (k + i) = ?N (k + j) \<Longrightarrow> i = j"
    using Cons.prems(2) by simp
  have inj': "\<forall>i<length ps. \<forall>j<length ps. ?N (Suc k + i) = ?N (Suc k + j) \<longrightarrow> i = j"
  proof (intro allI impI)
    fix i j assume "i < length ps" "j < length ps" "?N (Suc k + i) = ?N (Suc k + j)"
    then have "Suc i = Suc j" using inj [of "Suc i" "Suc j"] by simp
    then show "i = j" by simp
  qed
  have ne: "\<And>i. i < length ps \<Longrightarrow> ?N (Suc k + i) \<noteq> ?N k"
  proof
    fix i assume "i < length ps" "?N (Suc k + i) = ?N k"
    then have "Suc i = 0" using inj [of "Suc i" 0] by simp
    then show False by simp
  qed
  note IH = Cons.IH [OF rec inj']
  have a: "texts fs' = texts fs" "denied fs' = denied fs"
    using IH by (simp_all add: append_file_simps)
  have b: "streams fs' (?N (k + i)) = Some (stream_of fs (?N (k + i)) @ map Rec ((x # ps) ! i))"
    if "i < length (x # ps)" for i
  proof (cases i)
    case 0
    have "\<forall>i<length ps. ?N k \<noteq> ?N (Suc k + i)" using ne by metis
    then have "streams fs' (?N k) = streams ?fs1 (?N k)" using IH by blast
    then show ?thesis using 0 by (simp add: append_file_simps)
  next
    case (Suc i')
    then have lt: "i' < length ps" using that by simp
    then have "streams fs' (?N (Suc k + i')) =
        Some (stream_of ?fs1 (?N (Suc k + i')) @ map Rec (ps ! i'))"
      using IH by blast
    then show ?thesis using Suc ne [OF lt] by (simp add: append_file_simps)
  qed
  have c: "streams fs' f = streams fs f" if "\<forall>i<length (x # ps). f \<noteq> ?N (k + i)" for f
  proof -
    from that have "f \<noteq> ?N k" by fastforce
    moreover from that have "\<forall>i<length ps. f \<noteq> ?N (Suc k + i)" by fastforce
    then have "streams fs' f = streams ?fs1 f" using IH by blast
    ultimately show ?thesis by (simp add: append_file_simps)
  qed
  from a b c show ?case by blast
qed

lemma ucast_reducer_eq:
  "(unat (x :: uint32) = unat (r :: uint)) = ((ucast x :: uint) = r)"
proof
  assume "unat x = unat r"
  then have "unat (ucast x :: uint) = unat r" by (simp add: unat_ucast_up)
  then show "(ucast x :: uint) = r" by (simp add: word_unat_eq_iff)
next
  assume "(ucast x :: uint) = r"
  then have "unat (ucast x :: uint) = unat r" by simp
  then show "unat x = unat r" by (simp add: unat_ucast_up)
qed

section \<open>Properties of the naming scheme\<close>

lemma below_ten: "d < 10 \<Longrightarrow> d \<in> {0, 1, 2, 3, 4, 5, 6, 7, 8, 9 :: nat}"
  by auto

lemma digit_inverse: "d < 10 \<Longrightarrow> of_char (digit d) - 48 = d"
  by (drule below_ten) (auto simp: digit_def)

lemma digit_not_minus: "d < 10 \<Longrightarrow> digit d \<noteq> CHR ''-''"
  by (drule below_ten) (auto simp: digit_def)

lemma digit_val_digits: "digit_val (digits n) = n"
proof (induction n rule: digits.induct)
  case (1 n)
  show ?case
  proof (cases "n < 10")
    case True
    then show ?thesis by (subst digits.simps) (simp add: digit_val_def digit_inverse)
  next
    case False
    with 1 have "digit_val (digits (n div 10)) = n div 10" by simp
    with False show ?thesis
      by (subst digits.simps) (simp add: digit_val_def digit_inverse)
  qed
qed

lemma digits_inj: "digits m = digits n \<Longrightarrow> m = n"
  by (metis digit_val_digits)

lemma digits_no_minus: "CHR ''-'' \<notin> set (digits n)"
proof (induction n rule: digits.induct)
  case (1 n)
  show ?case
  proof (cases "n < 10")
    case True
    then show ?thesis using digit_not_minus [of n] by (subst digits.simps) auto
  next
    case False
    with 1 have "CHR ''-'' \<notin> set (digits (n div 10))" by simp
    moreover have "digit (n mod 10) \<noteq> CHR ''-''" by (rule digit_not_minus) simp
    ultimately show ?thesis using False by (subst digits.simps) auto
  qed
qed

lemma digits_nonempty: "digits n \<noteq> []"
  by (subst digits.simps) simp

lemma takeWhile_until: "c \<notin> set xs \<Longrightarrow> takeWhile (\<lambda>x. x \<noteq> c) (xs @ c # us) = xs"
  by (induction xs) auto

lemma split_at_minus:
  assumes "CHR ''-'' \<notin> set xs" "CHR ''-'' \<notin> set ys"
    and "xs @ CHR ''-'' # us = ys @ CHR ''-'' # vs"
  shows "xs = ys \<and> us = vs"
proof -
  have "takeWhile (\<lambda>c. c \<noteq> CHR ''-'') (xs @ CHR ''-'' # us) = xs"
    using assms(1) by (rule takeWhile_until)
  moreover have "takeWhile (\<lambda>c. c \<noteq> CHR ''-'') (ys @ CHR ''-'' # vs) = ys"
    using assms(2) by (rule takeWhile_until)
  ultimately have "xs = ys" using assms(3) by simp
  with assms(3) show ?thesis by simp
qed

lemma Itoa_inj: "Itoa i = Itoa j \<Longrightarrow> i = j"
proof -
  assume eq: "Itoa i = Itoa j"
  have ne: "digits n \<noteq> CHR ''-'' # xs" for n xs
    using digits_no_minus [of n] by (metis list.set_intros(1))
  show "i = j"
  proof (cases "i < 0"; cases "j < 0")
    assume ij: "i < 0" "j < 0"
    with eq have "digits (nat (- i)) = digits (nat (- j))" by (simp add: Itoa_def)
    then have "nat (- i) = nat (- j)" by (rule digits_inj)
    with ij show ?thesis by simp
  next
    assume "i < 0" "\<not> j < 0"
    with eq have "digits (nat j) = CHR ''-'' # digits (nat (- i))" by (simp add: Itoa_def)
    with ne show ?thesis by blast
  next
    assume "\<not> i < 0" "j < 0"
    with eq have "digits (nat i) = CHR ''-'' # digits (nat (- j))" by (simp add: Itoa_def)
    with ne show ?thesis by blast
  next
    assume ij: "\<not> i < 0" "\<not> j < 0"
    with eq have "digits (nat i) = digits (nat j)" by (simp add: Itoa_def)
    then have "nat i = nat j" by (rule digits_inj)
    with ij show ?thesis by simp
  qed
qed

lemma Itoa_pair_inj:
  assumes "Itoa m @ CHR ''-'' # Itoa r = Itoa m' @ CHR ''-'' # Itoa r'"
  shows "m = m' \<and> r = r'"
proof -
  have ne: "digits n \<noteq> []" for n by (rule digits_nonempty)
  have hd: "hd (digits n) \<noteq> CHR ''-''" for n
    using digits_no_minus [of n] ne [of n] by (metis hd_in_set)
  have "Itoa m = Itoa m' \<and> Itoa r = Itoa r'"
  proof (cases "m < 0"; cases "m' < 0")
    assume "m < 0" "m' < 0"
    with assms have "digits (nat (- m)) @ CHR ''-'' # Itoa r = digits (nat (- m')) @ CHR ''-'' # Itoa r'"
      by (simp add: Itoa_def)
    from split_at_minus [OF digits_no_minus digits_no_minus this] \<open>m < 0\<close> \<open>m' < 0\<close>
    show ?thesis by (simp add: Itoa_def)
  next
    assume a: "m < 0" "\<not> m' < 0"
    with assms have "CHR ''-'' # digits (nat (- m)) @ CHR ''-'' # Itoa r = digits (nat m') @ CHR ''-'' # Itoa r'"
      by (simp add: Itoa_def)
    then have "hd (digits (nat m') @ CHR ''-'' # Itoa r') = CHR ''-''" by (metis list.sel(1))
    then have "hd (digits (nat m')) = CHR ''-''" using ne [of "nat m'"] by simp
    with hd show ?thesis by simp
  next
    assume a: "\<not> m < 0" "m' < 0"
    with assms have "digits (nat m) @ CHR ''-'' # Itoa r = CHR ''-'' # digits (nat (- m')) @ CHR ''-'' # Itoa r'"
      by (simp add: Itoa_def)
    then have "hd (digits (nat m) @ CHR ''-'' # Itoa r) = CHR ''-''" by (metis list.sel(1))
    then have "hd (digits (nat m)) = CHR ''-''" using ne [of "nat m"] by simp
    with hd show ?thesis by simp
  next
    assume "\<not> m < 0" "\<not> m' < 0"
    with assms have "digits (nat m) @ CHR ''-'' # Itoa r = digits (nat m') @ CHR ''-'' # Itoa r'"
      by (simp add: Itoa_def)
    from split_at_minus [OF digits_no_minus digits_no_minus this] \<open>\<not> m < 0\<close> \<open>\<not> m' < 0\<close>
    show ?thesis by (simp add: Itoa_def)
  qed
  then show ?thesis using Itoa_inj by blast
qed

text \<open>
  Claim C9. The name of a partition file is a function of the job name, the mapper index
  and the reducer index, so every process computes the same name for the same triple;
  for a fixed job (and output directory) two names are equal exactly when the mapper
  indices are equal and the reducer indices are equal.
\<close>

theorem reduceInputName_injective:
  "reduceInputName DataOutputDir job m r = reduceInputName DataOutputDir job m' r'
   \<longleftrightarrow> m = m' \<and> r = r'"
proof
  assume "reduceInputName DataOutputDir job m r = reduceInputName DataOutputDir job m' r'"
  then have "Itoa m @ CHR ''-'' # Itoa r = Itoa m' @ CHR ''-'' # Itoa r'"
    by (simp add: reduceInputName_def)
  then show "m = m' \<and> r = r'" by (rule Itoa_pair_inj)
next
  assume "m = m' \<and> r = r'"
  then show "reduceInputName DataOutputDir job m r = reduceInputName DataOutputDir job m' r'"
    by simp
qed

subsection \<open>The instance of the package functions\<close>

lemma package_simps:
  "ihash (package d) = fnv32a"
  "reduceInputName_mr (package d) job m r = reduceInputName d job (sint m) (sint r)"
  "ReduceOutputName (package d) job r = d @ ''mr.'' @ job @ ''-res-'' @ Itoa (sint r)"
  by (simp_all add: package_def)

lemma package_names_inj: "inj (reduceInputName_mr (package d) job m)"
proof (rule injI)
  fix r r' :: uint
  assume "reduceInputName_mr (package d) job m r = reduceInputName_mr (package d) job m r'"
  then have "Itoa (sint m) @ CHR ''-'' # Itoa (sint r) = Itoa (sint m) @ CHR ''-'' # Itoa (sint r')"
    by (simp add: package_simps reduceInputName_def)
  then have "sint r = sint r'" using Itoa_pair_inj by blast
  then show "r = r'" by (rule signed_word_eqI)
qed

lemma sample_names:
  "reduceInputName ''out/'' ''job'' 0 0 = ''out/mr.job-0-0''"
  "reduceInputName ''out/'' ''job'' 0 1 = ''out/mr.job-0-1''"
  "reduceInputName ''out/'' ''job'' 1 0 = ''out/mr.job-1-0''"
  "reduceInputName ''out/'' ''job'' 1 1 = ''out/mr.job-1-1''"
  by (simp_all add: reduceInputName_def Itoa_def digits.simps digit_def)

lemma sample_hashes:
  "reducerNum_of fnv32a 2 (KeyValue ''a'' v) = 0"
  "reducerNum_of fnv32a 2 (KeyValue ''b'' v) = 1"
  by (simp_all add: fnv32a_def reducerNum_of_def)

lemma replicate_two: "replicate 2 x = [x, x]"
  by (simp add: numeral_2_eq_2)

lemma DoMap_sample:
  "DoMap (package ''out/'') sample_worker sample_fs ''in'' 0 2 = Inr sample_fs_mapped"
  by (simp add: DoMap_def package_simps sample_worker_def sample_fs_def sample_fs_mapped_def
      Let_def sample_hashes append_file_def stream_of_def sample_names replicate_two)

section \<open>The files written by DoMap\<close>

text \<open>
  Claim C5. An execution of \<open>DoMap\<close> that returns has added records to exactly
  \<open>numReducers\<close> partition files, one for each reducer index below \<open>numReducers\<close>, given
  that the naming function yields different names for different reducer indices. The
  file of reducer \<open>r\<close> holds what it held before (nothing when it was absent), followed
  by the pairs that the map function emitted for \<open>r\<close>, in the order of emission; it may
  get no pair at all. No other file changes.
\<close>

theorem DoMap_partition_files:
  assumes ok: "DoMap pkg w fs inputFileName mapperNum numReducers = Inr fs'"
    and inj: "inj (reduceInputName_mr pkg (jobName w) mapperNum)"
  shows "\<exists>content. texts fs inputFileName = Some content \<and>
    (\<forall>r<numReducers.
       streams fs' (reduceInputName_mr pkg (jobName w) mapperNum r) =
       Some (stream_of fs (reduceInputName_mr pkg (jobName w) mapperNum r) @
             map Rec (filter (\<lambda>kv. ucast (reducerNum_of (ihash pkg) numReducers kv) = r)
                        (mapF w inputFileName content)))) \<and>
    (\<forall>f. f \<notin> reduceInputName_mr pkg (jobName w) mapperNum ` {r. r < numReducers} \<longrightarrow>
       streams fs' f = streams fs f) \<and>
    card (reduceInputName_mr pkg (jobName w) mapperNum ` {r. r < numReducers}) = unat numReducers"
proof -
  let ?N = "reduceInputName_mr pkg (jobName w) mapperNum"
  from ok obtain content where c: "texts fs inputFileName = Some content"
    by (auto simp: DoMap_def split: if_splits option.splits)
  let ?kvs = "mapF w inputFileName content"
  from ok c obtain ps where
    ps: "partition_kvs (ihash pkg) numReducers ?kvs (replicate (unat numReducers) []) = Inr ps"
    and sv: "save_partitions pkg (jobName w) mapperNum 0 ps fs = Inr fs'"
    by (auto simp: DoMap_def Let_def split: if_splits sum.splits)
  from partition_kvs_Inr [OF ps] have len: "length ps = unat numReducers"
    and nth: "\<And>i. i < unat numReducers \<Longrightarrow>
       ps ! i = filter (\<lambda>kv. unat (reducerNum_of (ihash pkg) numReducers kv) = i) ?kvs"
    by simp_all
  have inj0: "\<forall>i<length ps. \<forall>j<length ps. ?N (of_nat (0 + i)) = ?N (of_nat (0 + j)) \<longrightarrow> i = j"
  proof (intro allI impI)
    fix i j assume ij: "i < length ps" "j < length ps" "?N (of_nat (0 + i)) = ?N (of_nat (0 + j))"
    then have "(of_nat i :: uint) = of_nat j" using inj by (simp add: inj_eq)
    then have "unat (of_nat i :: uint) = unat (of_nat j :: uint)" by simp
    then show "i = j" using ij len by (simp add: unat_of_nat_below)
  qed
  note S = save_partitions_Inr [OF sv inj0]
  have files: "streams fs' (?N r) =
       Some (stream_of fs (?N r) @
             map Rec (filter (\<lambda>kv. ucast (reducerNum_of (ihash pkg) numReducers kv) = r) ?kvs))"
    if "r < numReducers" for r
  proof -
    from that have lt: "unat r < unat numReducers" by (simp add: word_less_nat_alt)
    then have lt': "unat r < length ps" using len by simp
    from S have A: "\<And>i. i < length ps \<Longrightarrow> streams fs' (?N (of_nat i)) =
        Some (stream_of fs (?N (of_nat i)) @ map Rec (ps ! i))"
      by simp
    from A [OF lt'] have "streams fs' (?N r) = Some (stream_of fs (?N r) @ map Rec (ps ! unat r))"
      by simp
    then show ?thesis using nth [OF lt] by (simp add: ucast_reducer_eq)
  qed
  have others: "streams fs' f = streams fs f" if "f \<notin> ?N ` {r. r < numReducers}" for f
  proof -
    have "\<forall>i<length ps. f \<noteq> ?N (of_nat (0 + i))"
    proof (intro allI impI)
      fix i assume "i < length ps"
      then have "(of_nat i :: uint) \<in> {r. r < numReducers}"
        using len by (simp add: word_below_image)
      then show "f \<noteq> ?N (of_nat (0 + i))" using that by auto
    qed
    moreover from S have "\<forall>f. (\<forall>i<length ps. f \<noteq> ?N (of_nat (0 + i))) \<longrightarrow>
        streams fs' f = streams fs f" by (elim conjE)
    ultimately show ?thesis by simp
  qed
  have io: "inj_on ?N {r. r < numReducers}"
    by (rule inj_on_subset [OF inj]) simp
  have cd: "card (?N ` {r. r < numReducers}) = unat numReducers"
    by (simp only: card_image [OF io] card_word_below)
  show ?thesis
  proof (intro exI [of _ content] conjI allI impI)
    show "texts fs inputFileName = Some content" by (rule c)
  next
    fix r assume "r < numReducers"
    then show "streams fs' (?N r) =
       Some (stream_of fs (?N r) @
             map Rec (filter (\<lambda>kv. ucast (reducerNum_of (ihash pkg) numReducers kv) = r) ?kvs))"
      by (rule files)
  next
    fix f assume "f \<notin> ?N ` {r. r < numReducers}"
    then show "streams fs' f = streams fs f" by (rule others)
  next
    show "card (?N ` {r. r < numReducers}) = unat numReducers" by (rule cd)
  qed
qed

theorem DoMap_partition_files_witness:
  "DoMap (package ''out/'') sample_worker sample_fs ''in'' 0 2 = Inr sample_fs_mapped \<and>
   inj (reduceInputName_mr (package ''out/'') (jobName sample_worker) 0) \<and>
   (\<exists>content. texts sample_fs ''in'' = Some content \<and>
    (\<forall>r<2.
       streams sample_fs_mapped (reduceInputName_mr (package ''out/'') (jobName sample_worker) 0 r) =
       Some (stream_of sample_fs (reduceInputName_mr (package ''out/'') (jobName sample_worker) 0 r) @
             map Rec (filter (\<lambda>kv. ucast (reducerNum_of (ihash (package ''out/'')) 2 kv) = r)
                        (mapF sample_worker ''in'' content)))) \<and>
    (\<forall>f. f \<notin> reduceInputName_mr (package ''out/'') (jobName sample_worker) 0 ` {r. r < 2} \<longrightarrow>
       streams sample_fs_mapped f = streams sample_fs f) \<and>
    card (reduceInputName_mr (package ''out/'') (jobName sample_worker) 0 ` {r. r < 2}) = unat (2 :: uint))"
  using DoMap_partition_files [OF DoMap_sample package_names_inj] DoMap_sample package_names_inj
  by blast

section \<open>Properties of DoReduce\<close>

subsection \<open>The decoding loop and the loop over the mappers\<close>

lemma lookup_upd: "lookup (m(k \<mapsto> v)) k' = (if k' = k then v else lookup m k')"
  by (simp add: lookup_def)

lemma decode_all_lookup:
  "lookup (decode_all es m) k = lookup m k @ values_of k (records es)"
proof (induction es arbitrary: m)
  case Nil
  then show ?case by (simp add: values_of_def)
next
  case (Cons e es)
  show ?case
  proof (cases e)
    case (Rec kv)
    let ?m = "m(Key kv \<mapsto> lookup m (Key kv) @ [Value kv])"
    have IH: "lookup (decode_all es ?m) k = lookup ?m k @ values_of k (records es)"
      by (rule Cons.IH)
    have "lookup ?m k = lookup m k @ (if Key kv = k then [Value kv] else [])"
      by (simp add: lookup_def)
    with IH Rec show ?thesis by (simp add: values_of_def)
  next
    case Bad
    then show ?thesis by (simp add: values_of_def)
  qed
qed

lemma decode_all_dom:
  "dom (decode_all es m) = dom m \<union> Key ` set (records es)"
proof (induction es arbitrary: m)
  case Nil
  then show ?case by simp
next
  case (Cons e es)
  show ?case
  proof (cases e)
    case (Rec kv)
    let ?m = "m(Key kv \<mapsto> lookup m (Key kv) @ [Value kv])"
    have IH: "dom (decode_all es ?m) = dom ?m \<union> Key ` set (records es)"
      by (rule Cons.IH)
    have "dom ?m = insert (Key kv) (dom m)" by simp
    with IH Rec show ?thesis by simp
  next
    case Bad
    then show ?thesis by simp
  qed
qed

lemma records_pairs: "Bad \<notin> set es \<Longrightarrow> records es = pairs es"
proof (induction es)
  case Nil
  then show ?case by simp
next
  case (Cons e es)
  then show ?case by (cases e) simp_all
qed

lemma unat_succ_below: "(i :: uint) < n \<Longrightarrow> unat (i + 1) = Suc (unat i)"
proof -
  assume lt: "i < n"
  then have "i + 1 \<noteq> 0"
    by (metis add.commute add.right_inverse add_left_cancel word_order.extremum_strict)
  then show ?thesis by (simp add: unatSuc add.commute)
qed

lemma upt_word_step:
  "(i :: uint) < n \<Longrightarrow> [unat i..<unat n] = unat i # [unat (i + 1)..<unat n]"
  by (simp add: unat_succ_below word_less_nat_alt upt_conv_Cons)

lemma upt_word_done: "\<not> (i :: uint) < n \<Longrightarrow> [unat i..<unat n] = []"
  by (simp add: word_less_nat_alt)

lemma values_of_append: "values_of k (xs @ ys) = values_of k xs @ values_of k ys"
  by (simp add: values_of_def)

lemma pairs_read_Cons:
  "pairs_read pkg job fs r (m # ms) = records (input_of pkg job fs r m) @ pairs_read pkg job fs r ms"
  by (simp add: pairs_read_def)

lemma read_inputs_Inr:
  "read_inputs pkg job fs r n i m = Inr m' \<Longrightarrow>
   (\<forall>k. lookup m' k = lookup m k @ values_of k (pairs_read pkg job fs r [unat i..<unat n])) \<and>
   dom m' = dom m \<union> Key ` set (pairs_read pkg job fs r [unat i..<unat n])"
proof (induction pkg job fs r n i m rule: read_inputs.induct)
  case (1 pkg job fs r n i m)
  show ?case
  proof (cases "i < n")
    case False
    with "1.prems" have "m' = m" by (simp add: read_inputs.simps)
    with False show ?thesis
      by (simp add: upt_word_done pairs_read_def values_of_def)
  next
    case True
    let ?f = "reduceInputName_mr pkg job i r"
    from True "1.prems" obtain es where nd: "\<not> denied fs ?f" and es: "streams fs ?f = Some es"
      and rec: "read_inputs pkg job fs r n (i + 1) (decode_all es m) = Inr m'"
      by (auto simp: read_inputs.simps [of pkg job fs r n i m] Let_def split: if_splits option.splits)
    have inp: "input_of pkg job fs r (unat i) = es"
      by (simp add: input_of_def stream_of_def es)
    note IH = "1.IH" [OF True refl nd es rec]
    show ?thesis
      using IH
      by (simp add: upt_word_step [OF True] pairs_read_Cons inp decode_all_lookup
          decode_all_dom values_of_append Un_assoc image_Un)
  qed
qed

lemma read_inputs_total:
  "(\<forall>j. unat i \<le> j \<and> j < unat n \<longrightarrow>
      \<not> denied fs (reduceInputName_mr pkg job (of_nat j) r) \<and>
      streams fs (reduceInputName_mr pkg job (of_nat j) r) \<noteq> None) \<Longrightarrow>
   \<exists>m'. read_inputs pkg job fs r n i m = Inr m'"
proof (induction pkg job fs r n i m rule: read_inputs.induct)
  case (1 pkg job fs r n i m)
  show ?case
  proof (cases "i < n")
    case False
    then show ?thesis by (simp add: read_inputs.simps)
  next
    case True
    let ?f = "reduceInputName_mr pkg job i r"
    from True have "unat i \<le> unat i \<and> unat i < unat n" by (simp add: word_less_nat_alt)
    with "1.prems" have "\<not> denied fs (reduceInputName_mr pkg job (of_nat (unat i)) r) \<and>
      streams fs (reduceInputName_mr pkg job (of_nat (unat i)) r) \<noteq> None" by blast
    then obtain es where nd: "\<not> denied fs ?f" and es: "streams fs ?f = Some es" by auto
    have "\<forall>j. unat (i + 1) \<le> j \<and> j < unat n \<longrightarrow>
      \<not> denied fs (reduceInputName_mr pkg job (of_nat j) r) \<and>
      streams fs (reduceInputName_mr pkg job (of_nat j) r) \<noteq> None"
      using "1.prems" by (simp add: unat_succ_below [OF True])
    from "1.IH" [OF True refl nd es this] obtain m' where
      "read_inputs pkg job fs r n (i + 1) (decode_all es m) = Inr m'" by blast
    with True nd es show ?thesis
      by (simp add: read_inputs.simps [of pkg job fs r n i m])
  qed
qed

subsection \<open>The whole operation\<close>

lemma create_file_simps:
  "texts (create_file fs f kvs) = texts fs"
  "denied (create_file fs f kvs) = denied fs"
  "streams (create_file fs f kvs) f = Some (map Rec kvs)"
  "g \<noteq> f \<Longrightarrow> streams (create_file fs f kvs) g = streams fs g"
  by (simp_all add: create_file_def)

lemma DoReduce_Inr:
  assumes "DoReduce pkg w keys fs r n = Inr fs'"
  shows "\<exists>kvMap. read_inputs pkg (jobName w) fs r n 0 Map.empty = Inr kvMap \<and>
           \<not> denied fs (ReduceOutputName pkg (jobName w) r) \<and>
           fs' = create_file fs (ReduceOutputName pkg (jobName w) r) (reduce_all w kvMap keys)"
  using assms by (auto simp: DoReduce_def Let_def split: sum.splits if_splits)

lemma read_inputs_from_start:
  assumes "read_inputs pkg job fs r n 0 Map.empty = Inr kvMap"
  shows "lookup kvMap k = values_of k (pairs_read pkg job fs r [0..<unat n])"
    and "dom kvMap = Key ` set (pairs_read pkg job fs r [0..<unat n])"
  using read_inputs_Inr [OF assms] by (simp_all add: lookup_def)

lemma reduce_all_values:
  assumes "read_inputs pkg job fs r n 0 Map.empty = Inr kvMap"
  shows "reduce_all w kvMap keys =
    map (\<lambda>key. KeyValue key (reduceF w key (values_of key (pairs_read pkg job fs r [0..<unat n])))) keys"
  by (simp add: reduce_all_def read_inputs_from_start(1) [OF assms])

lemma pairs_read_well_formed:
  assumes "\<forall>m\<in>set ms. Bad \<notin> set (input_of pkg job fs r m)"
  shows "pairs_read pkg job fs r ms = concat (map (\<lambda>m. pairs (input_of pkg job fs r m)) ms)"
  using assms
proof (induction ms)
  case Nil
  then show ?case by (simp add: pairs_read_def)
next
  case (Cons m ms)
  then have "records (input_of pkg job fs r m) = pairs (input_of pkg job fs r m)"
    by (simp add: records_pairs)
  with Cons show ?case by (simp add: pairs_read_Cons)
qed

subsection \<open>Runs on the sample files\<close>

lemma sample_out_name: "ReduceOutputName (package ''out/'') ''job'' 0 = ''out/mr.job-res-0''"
  by (simp add: package_simps Itoa_def digits.simps digit_def)

lemma sample_worker_simps:
  "jobName sample_worker = ''job''"
  "mapF sample_worker f c = map (\<lambda>x. KeyValue [x] f) c"
  "reduceF sample_worker k vs = concat vs"
  by (simp_all add: sample_worker_def)

lemma sample_fs_simps:
  "denied sample_fs_shuffled f = False"
  "denied sample_fs_corrupt f = False"
  by (simp_all add: sample_fs_shuffled_def sample_fs_corrupt_def)

lemma read_sample:
  "read_inputs (package ''out/'') ''job'' sample_fs_shuffled 0 2 0 Map.empty = Inr sample_kvMap"
  by (auto simp: read_inputs.simps package_simps sample_names sample_fs_shuffled_def
      sample_kvMap_def lookup_def fun_eq_iff)

lemma read_corrupt:
  "read_inputs (package ''out/'') ''job'' sample_fs_corrupt 0 2 0 Map.empty =
   Inr [''a'' \<mapsto> [''1''], ''c'' \<mapsto> [''3'']]"
  by (auto simp: read_inputs.simps package_simps sample_names sample_fs_corrupt_def
      lookup_def fun_eq_iff)

lemma range_sample:
  "range_order sample_kvMap [''a'', ''c'']" "range_order sample_kvMap [''c'', ''a'']"
  by (auto simp: range_order_def sample_kvMap_def)

lemma DoReduce_sample1:
  "DoReduce (package ''out/'') sample_worker [''a'', ''c''] sample_fs_shuffled 0 2 =
   Inr (create_file sample_fs_shuffled ''out/mr.job-res-0'' [KeyValue ''a'' ''14'', KeyValue ''c'' ''23''])"
  by (simp add: DoReduce_def sample_worker_simps read_sample sample_out_name reduce_all_def
      sample_fs_simps sample_kvMap_def lookup_def)


lemma DoReduce_corrupt:
  "DoReduce (package ''out/'') sample_worker [''a'', ''c''] sample_fs_corrupt 0 2 =
   Inr (create_file sample_fs_corrupt ''out/mr.job-res-0'' [KeyValue ''a'' ''1'', KeyValue ''c'' ''3''])"
  by (simp add: DoReduce_def sample_worker_simps read_corrupt sample_out_name reduce_all_def
      sample_fs_simps lookup_def)

lemma below_two: "m < unat (2 :: uint) \<Longrightarrow> m = 0 \<or> m = 1"
  by auto

lemma sample_inputs:
  "input_of (package ''out/'') ''job'' sample_fs_shuffled 0 0 = [Rec (KeyValue ''a'' ''1''), Rec (KeyValue ''c'' ''2'')]"
  "input_of (package ''out/'') ''job'' sample_fs_shuffled 0 (Suc 0) = [Rec (KeyValue ''c'' ''3''), Rec (KeyValue ''a'' ''4'')]"
  "input_of (package ''out/'') ''job'' sample_fs_corrupt 0 0 = [Rec (KeyValue ''a'' ''1''), Bad, Rec (KeyValue ''c'' ''2'')]"
  "input_of (package ''out/'') ''job'' sample_fs_corrupt 0 (Suc 0) = [Rec (KeyValue ''c'' ''3'')]"
  by (simp_all add: input_of_def stream_of_def package_simps sample_names
      sample_fs_shuffled_def sample_fs_corrupt_def)

lemma sample_well_formed:
  "\<forall>m<unat (2 :: uint). Bad \<notin> set (input_of (package ''out/'') (jobName sample_worker) sample_fs_shuffled 0 m)"
proof (intro allI impI)
  fix m assume "m < unat (2 :: uint)"
  then have "m = 0 \<or> m = 1" by (rule below_two)
  then show "Bad \<notin> set (input_of (package ''out/'') (jobName sample_worker) sample_fs_shuffled 0 m)"
    by (auto simp: sample_worker_simps sample_inputs)
qed


lemma sample_range1:
  "\<forall>kvMap. read_inputs (package ''out/'') (jobName sample_worker) sample_fs_shuffled 0 2 0 Map.empty = Inr kvMap
     \<longrightarrow> range_order kvMap [''a'', ''c'']"
  by (simp add: sample_worker_simps read_sample range_sample)

lemma corrupt_inputs_open:
  "\<forall>m<unat (2 :: uint).
       \<not> denied sample_fs_corrupt (reduceInputName_mr (package ''out/'') (jobName sample_worker) (of_nat m) 0) \<and>
       streams sample_fs_corrupt (reduceInputName_mr (package ''out/'') (jobName sample_worker) (of_nat m) 0) \<noteq> None"
proof (intro allI impI)
  fix m assume "m < unat (2 :: uint)"
  then have "m = 0 \<or> m = 1" by (rule below_two)
  then show "\<not> denied sample_fs_corrupt (reduceInputName_mr (package ''out/'') (jobName sample_worker) (of_nat m) 0) \<and>
       streams sample_fs_corrupt (reduceInputName_mr (package ''out/'') (jobName sample_worker) (of_nat m) 0) \<noteq> None"
    by (auto simp: sample_worker_simps package_simps sample_names sample_fs_corrupt_def)
qed

lemma corrupt_output_open:
  "\<not> denied sample_fs_corrupt (ReduceOutputName (package ''out/'') (jobName sample_worker) 0)"
  by (simp add: sample_fs_simps)

subsection \<open>Grouping and reducing\<close>

text \<open>
  When the partition files of the \<open>numMappers\<close> mappers for the reducer hold only
  records that decode, a run of \<open>DoReduce\<close> that returns has read all of them:
  with \<open>all\<close> the pairs of the files of the mappers \<open>0, ..., numMappers - 1\<close> in
  file-read order, the output file holds, for each key that \<open>range\<close> enumerates, one
  record made of the key and of the reduce function applied to the key and to the values
  of the key in \<open>all\<close>, in this order; the enumerated keys are the distinct keys of
  \<open>all\<close>, each once. The output file is replaced (\<open>os.Create\<close>), no other file changes.
\<close>

lemma DoReduce_groups_by_key:
  assumes ok: "DoReduce pkg w keys fs reducerNum numMappers = Inr fs'"
    and wf: "\<forall>m<unat numMappers. Bad \<notin> set (input_of pkg (jobName w) fs reducerNum m)"
    and ro: "\<forall>kvMap. read_inputs pkg (jobName w) fs reducerNum numMappers 0 Map.empty = Inr kvMap
               \<longrightarrow> range_order kvMap keys"
  shows "streams fs' (ReduceOutputName pkg (jobName w) reducerNum) =
           Some (map (\<lambda>key. Rec (KeyValue key (reduceF w key
                   (values_of key (concat (map (\<lambda>m. pairs (input_of pkg (jobName w) fs reducerNum m))
                                            [0..<unat numMappers])))))) keys) \<and>
         distinct keys \<and>
         set keys = Key ` set (concat (map (\<lambda>m. pairs (input_of pkg (jobName w) fs reducerNum m))
                                        [0..<unat numMappers])) \<and>
         (\<forall>f. f \<noteq> ReduceOutputName pkg (jobName w) reducerNum \<longrightarrow> streams fs' f = streams fs f)"
proof -
  let ?out = "ReduceOutputName pkg (jobName w) reducerNum"
  let ?all = "concat (map (\<lambda>m. pairs (input_of pkg (jobName w) fs reducerNum m)) [0..<unat numMappers])"
  from DoReduce_Inr [OF ok] obtain kvMap where
    rd: "read_inputs pkg (jobName w) fs reducerNum numMappers 0 Map.empty = Inr kvMap"
    and fs': "fs' = create_file fs ?out (reduce_all w kvMap keys)" by blast
  have pr: "pairs_read pkg (jobName w) fs reducerNum [0..<unat numMappers] = ?all"
    by (rule pairs_read_well_formed) (use wf in simp)
  from ro rd have "range_order kvMap keys" by blast
  then have d: "distinct keys" and s: "set keys = Key ` set ?all"
    by (simp_all add: range_order_def read_inputs_from_start(2) [OF rd] pr)
  have "streams fs' ?out = Some (map Rec (reduce_all w kvMap keys))"
    by (simp add: fs' create_file_simps)
  then have o: "streams fs' ?out =
     Some (map (\<lambda>key. Rec (KeyValue key (reduceF w key (values_of key ?all)))) keys)"
    by (simp add: reduce_all_values [OF rd] pr comp_def)
  have "\<forall>f. f \<noteq> ?out \<longrightarrow> streams fs' f = streams fs f"
    by (simp add: fs' create_file_simps)
  with o d s show ?thesis by simp
qed

lemma DoReduce_groups_by_key_sample:
  "DoReduce (package ''out/'') sample_worker [''a'', ''c''] sample_fs_shuffled 0 2 =
     Inr (create_file sample_fs_shuffled ''out/mr.job-res-0''
            [KeyValue ''a'' ''14'', KeyValue ''c'' ''23'']) \<and>
   streams (create_file sample_fs_shuffled ''out/mr.job-res-0''
              [KeyValue ''a'' ''14'', KeyValue ''c'' ''23''])
     (ReduceOutputName (package ''out/'') (jobName sample_worker) 0) =
     Some (map (\<lambda>key. Rec (KeyValue key (reduceF sample_worker key
             (values_of key (concat (map (\<lambda>m. pairs (input_of (package ''out/'')
                (jobName sample_worker) sample_fs_shuffled 0 m)) [0..<unat (2 :: uint)]))))))
           [''a'', ''c''])"
  using DoReduce_groups_by_key [OF DoReduce_sample1 sample_well_formed sample_range1]
    DoReduce_sample1 sample_well_formed sample_range1
  by blast

subsection \<open>Data that does not decode\<close>

text \<open>
  The decoding loop ends at the first error of \<open>Decode\<close> and the error is dropped,
  whereas the errors of \<open>os.Open\<close> and \<open>os.Create\<close> in the same function go to
  \<open>checkErr\<close>. The two runs below are on the same files: the file of mapper 0 holds a
  record, then an entry that does not decode, then a record of key \<open>c\<close>; the file of
  mapper 1 holds one record of key \<open>c\<close>.
\<close>

text \<open>
  Claim C4 on the code. The record of key \<open>c\<close> that follows the undecodable entry is
  never deserialized: the map built by the loops has the value 3 only for \<open>c\<close>, and
  the output record of \<open>c\<close> is the reduce function applied to the value 3, not to
  the values 2 and 3 that the partition files hold for \<open>c\<close> in file-read order.
\<close>

theorem DoReduce_drops_later_records:
  "input_of (package ''out/'') ''job'' sample_fs_corrupt 0 0 =
     [Rec (KeyValue ''a'' ''1''), Bad, Rec (KeyValue ''c'' ''2'')] \<and>
   input_of (package ''out/'') ''job'' sample_fs_corrupt 0 1 = [Rec (KeyValue ''c'' ''3'')] \<and>
   read_inputs (package ''out/'') ''job'' sample_fs_corrupt 0 2 0 Map.empty =
     Inr [''a'' \<mapsto> [''1''], ''c'' \<mapsto> [''3'']] \<and>
   range_order [''a'' \<mapsto> [''1''], ''c'' \<mapsto> [''3'']] [''a'', ''c''] \<and>
   DoReduce (package ''out/'') sample_worker [''a'', ''c''] sample_fs_corrupt 0 2 =
     Inr (create_file sample_fs_corrupt ''out/mr.job-res-0''
            [KeyValue ''a'' ''1'', KeyValue ''c'' ''3'']) \<and>
   reduceF sample_worker ''c'' [''2'', ''3''] = ''23''"
proof -
  have "range_order [''a'' \<mapsto> [''1''], ''c'' \<mapsto> [''3'']] [''a'', ''c'']"
    by (auto simp: range_order_def)
  then show ?thesis
    using sample_inputs(3,4)
    by (simp add: read_corrupt DoReduce_corrupt sample_worker_simps)
qed

text \<open>
  Claim C6 on the code. On a partition file with an entry that does not decode,
  \<open>DoReduce\<close> returns normally: the reducer's output is written and no error is
  raised.
\<close>

theorem DoReduce_ignores_undecodable:
  "Bad \<in> set (input_of (package ''out/'') ''job'' sample_fs_corrupt 0 0) \<and>
   DoReduce (package ''out/'') sample_worker [''a'', ''c''] sample_fs_corrupt 0 2 =
     Inr (create_file sample_fs_corrupt ''out/mr.job-res-0''
            [KeyValue ''a'' ''1'', KeyValue ''c'' ''3''])"
  by (simp add: sample_inputs DoReduce_corrupt)

text \<open>
  What the code does in general: whenever the input files can be opened and the output
  file can be created, \<open>DoReduce\<close> returns, and its output is computed from the pairs
  that precede the first undecodable entry of each file (\<open>pairs_read\<close>).
\<close>

lemma DoReduce_stops_at_undecodable:
  assumes inp: "\<forall>m<unat numMappers.
       \<not> denied fs (reduceInputName_mr pkg (jobName w) (of_nat m) reducerNum) \<and>
       streams fs (reduceInputName_mr pkg (jobName w) (of_nat m) reducerNum) \<noteq> None"
    and out: "\<not> denied fs (ReduceOutputName pkg (jobName w) reducerNum)"
  shows "DoReduce pkg w keys fs reducerNum numMappers =
     Inr (create_file fs (ReduceOutputName pkg (jobName w) reducerNum)
            (map (\<lambda>key. KeyValue key (reduceF w key
                    (values_of key (pairs_read pkg (jobName w) fs reducerNum [0..<unat numMappers]))))
               keys))"
proof -
  have "\<forall>j. unat (0 :: uint) \<le> j \<and> j < unat numMappers \<longrightarrow>
      \<not> denied fs (reduceInputName_mr pkg (jobName w) (of_nat j) reducerNum) \<and>
      streams fs (reduceInputName_mr pkg (jobName w) (of_nat j) reducerNum) \<noteq> None"
    using inp by simp
  from read_inputs_total [OF this] obtain kvMap where
    rd: "read_inputs pkg (jobName w) fs reducerNum numMappers 0 Map.empty = Inr kvMap" by blast
  show ?thesis
    by (simp add: DoReduce_def rd out reduce_all_values [OF rd])
qed

lemma DoReduce_stops_at_undecodable_sample:
  "\<not> denied sample_fs_corrupt (ReduceOutputName (package ''out/'') (jobName sample_worker) 0) \<and>
   DoReduce (package ''out/'') sample_worker [''a'', ''c''] sample_fs_corrupt 0 2 =
     Inr (create_file sample_fs_corrupt (ReduceOutputName (package ''out/'') (jobName sample_worker) 0)
            (map (\<lambda>key. KeyValue key (reduceF sample_worker key
                    (values_of key (pairs_read (package ''out/'') (jobName sample_worker)
                       sample_fs_corrupt 0 [0..<unat (2 :: uint)]))))
               [''a'', ''c'']))"
  using DoReduce_stops_at_undecodable [OF corrupt_inputs_open corrupt_output_open]
    corrupt_inputs_open corrupt_output_open
  by blast

subsection \<open>The order of the keys\<close>




section \<open>The reducer index of a key\<close>

text \<open>
  For a number of reducers between 1 and \<open>2\<^sup>3\<^sup>2 - 1\<close> the index computed by \<open>DoMap\<close> is
  the hash of the key modulo the number of reducers, and the loop does not divide by
  zero (\<open>partition_kvs_total\<close>). A number of reducers whose low 32 bits are zero makes
  the first pair panic.
\<close>

lemma reducerNum_of_small:
  assumes "n \<noteq> 0" "unat n < 2 ^ 32"
  shows "unat (reducerNum_of h n kv) = unat (h (Key kv)) mod unat n"
proof -
  have "unat (ucast n :: uint32) = unat n"
    using assms(2) by (simp add: unsigned_ucast_eq take_bit_nat_eq_self)
  then show ?thesis by (simp add: reducerNum_of_def unat_mod)
qed

lemma DoMap_zero_modulus:
  assumes "\<not> denied fs inputFileName" "texts fs inputFileName = Some content"
    and "mapF w inputFileName content \<noteq> []" and "(ucast numReducers :: uint32) = 0"
  shows "DoMap pkg w fs inputFileName mapperNum numReducers = Inl DivideByZero"
proof -
  from assms(3) obtain kv kvs where "mapF w inputFileName content = kv # kvs"
    by (cases "mapF w inputFileName content") auto
  with assms show ?thesis by (simp add: DoMap_def)
qed

text \<open>
  Claim C1 on the code. The index is computed modulo \<open>uint32(numReducers)\<close>, not modulo
  \<open>numReducers\<close>. With \<open>2\<^sup>3\<^sup>2 + 1\<close> reducers the divisor is 1: the pair with key \<open>a\<close>,
  whose hash modulo the number of reducers is 3826002220, goes to partition 0, as every
  pair does.
\<close>

theorem DoMap_index_truncated:
  "reducerNum_of fnv32a 4294967297 (KeyValue ''a'' ''1'') = 0 \<and>
   unat (fnv32a ''a'') mod unat (4294967297 :: uint) = 3826002220 \<and>
   partition_kvs fnv32a 4294967297 [KeyValue ''a'' ''1''] (replicate (unat (4294967297 :: uint)) []) =
     Inr ((replicate (unat (4294967297 :: uint)) [])[0 := [KeyValue ''a'' ''1'']])"
proof -
  have one: "(ucast (4294967297 :: uint) :: uint32) = 1"
    by (simp add: word_eq_iff_unsigned [where ?'a = nat] unsigned_ucast_eq take_bit_eq_mod)
  have a: "reducerNum_of fnv32a 4294967297 (KeyValue ''a'' ''1'') = 0"
    by (simp only: reducerNum_of_def one) simp
  have b: "unat (fnv32a ''a'') mod unat (4294967297 :: uint) = 3826002220"
    by (simp add: fnv32a_def)
  have c: "(ucast (4294967297 :: uint) :: uint32) \<noteq> 0" by simp
  have d: "0 < length (replicate (unat (4294967297 :: uint)) ([] :: KeyValue list))" by simp
  have e: "replicate (unat (4294967297 :: uint)) ([] :: KeyValue list) ! 0 = []"
    by (rule nth_replicate) simp
  have "partition_kvs fnv32a 4294967297 [KeyValue ''a'' ''1''] (replicate (unat (4294967297 :: uint)) []) =
     Inr ((replicate (unat (4294967297 :: uint)) [])[0 := [KeyValue ''a'' ''1'']])"
    using c d by (simp only: partition_kvs.simps Let_def a e unsigned_0 if_True if_False append_Nil)
  with a b show ?thesis by simp
qed

text \<open>
  Claim C10 on the code. With \<open>numReducers = 2\<^sup>3\<^sup>2\<close>, which is at least 1, the divisor
  \<open>uint32(numReducers)\<close> is zero and \<open>DoMap\<close> panics on the first pair that the map
  function emits.
\<close>

theorem DoMap_panics_at_two_to_32:
  "(1 :: uint) \<le> 4294967296 \<and>
   mapF sample_worker ''in'' ''aba'' \<noteq> [] \<and>
   DoMap (package ''out/'') sample_worker sample_fs ''in'' 0 4294967296 = Inl DivideByZero"
proof -
  have a: "\<not> denied sample_fs ''in''" "texts sample_fs ''in'' = Some ''aba''"
    by (simp_all add: sample_fs_def)
  have b: "mapF sample_worker ''in'' ''aba'' \<noteq> []" by (simp add: sample_worker_simps)
  have c: "(ucast (4294967296 :: uint) :: uint32) = 0" by simp
  have d: "(1 :: uint) \<le> 4294967296" by simp
  from DoMap_zero_modulus [OF a b c] b d show ?thesis by simp
qed

section \<open>Registration\<close>

lemma attempts_append: "attempts (xs @ ys) = attempts xs + attempts ys"
  by (induction xs rule: attempts.induct) simp_all

lemma attempts_failed: "attempts (failed_attempt addr i) = 1"
  by (simp add: failed_attempt_def)

lemma attempts_failed_run: "attempts (concat (map (failed_attempt addr) [i..<k])) = k - i"
proof (induction k)
  case 0
  then show ?case by simp
next
  case (Suc k)
  then show ?case by (cases "i \<le> k") (simp_all add: attempts_append attempts_failed)
qed

lemma register_loop_step_fail:
  "i < 40 \<Longrightarrow> \<not> callMaster i \<Longrightarrow>
   register_loop callMaster addr i False tr =
   register_loop callMaster addr (Suc i) False (tr @ failed_attempt addr i)"
  by (subst register_loop.simps) (simp add: failed_attempt_def Let_def)

lemma register_loop_step_ok:
  "i < 40 \<Longrightarrow> callMaster i \<Longrightarrow>
   register_loop callMaster addr i False tr = (True, tr @ [Register addr])"
  by (subst register_loop.simps) (simp add: Let_def register_loop.simps [of _ _ _ True])

lemma register_loop_all_fail:
  "i \<le> 40 \<Longrightarrow> \<forall>j. i \<le> j \<and> j < 40 \<longrightarrow> \<not> callMaster j \<Longrightarrow>
   register_loop callMaster addr i False tr =
   (False, tr @ concat (map (failed_attempt addr) [i..<40]))"
proof (induction "40 - i" arbitrary: i tr)
  case 0
  then have "i = 40" by simp
  then show ?case by (simp add: register_loop.simps)
next
  case (Suc d)
  then have lt: "i < 40" and nc: "\<not> callMaster i" by auto
  have "register_loop callMaster addr (Suc i) False (tr @ failed_attempt addr i) =
    (False, (tr @ failed_attempt addr i) @ concat (map (failed_attempt addr) [Suc i..<40]))"
    using Suc by (intro Suc.hyps(1)) auto
  with lt nc show ?case
    by (simp add: register_loop_step_fail upt_conv_Cons)
qed

lemma register_loop_first_success:
  "i \<le> k \<Longrightarrow> k < 40 \<Longrightarrow> callMaster k \<Longrightarrow> \<forall>j. i \<le> j \<and> j < k \<longrightarrow> \<not> callMaster j \<Longrightarrow>
   register_loop callMaster addr i False tr =
   (True, tr @ concat (map (failed_attempt addr) [i..<k]) @ [Register addr])"
proof (induction "k - i" arbitrary: i tr)
  case 0
  then have "i = k" by simp
  with 0 show ?case by (simp add: register_loop_step_ok)
next
  case (Suc d)
  then have lt: "i < k" "i < 40" and nc: "\<not> callMaster i" by auto
  have "register_loop callMaster addr (Suc i) False (tr @ failed_attempt addr i) =
    (True, (tr @ failed_attempt addr i) @ concat (map (failed_attempt addr) [Suc i..<k]) @ [Register addr])"
    using Suc by (intro Suc.hyps(1)) auto
  with lt nc show ?case
    by (simp add: register_loop_step_fail upt_conv_Cons)
qed

lemma first_success_exists:
  fixes callMaster :: "nat \<Rightarrow> bool"
  assumes "\<exists>j<n. callMaster j"
  shows "\<exists>k<n. callMaster k \<and> (\<forall>j<k. \<not> callMaster j)"
proof -
  from assms obtain j where j: "j < n" "callMaster j" by blast
  then have "\<exists>k. callMaster k" by blast
  then obtain k where k: "callMaster k" "\<forall>m<k. \<not> callMaster m"
    by (auto simp: exists_least_iff [of callMaster])
  have "k \<le> j"
  proof (rule ccontr)
    assume "\<not> k \<le> j"
    then have "j < k" by simp
    with k(2) j(2) show False by blast
  qed
  with j(1) have "k < n" by simp
  with k show ?thesis by blast
qed

lemma late_master_first: "late_master 2 \<and> (\<forall>j<2. \<not> late_master j)"
  by (simp add: late_master_def)

lemma absent_master_never: "\<forall>j<40. \<not> absent_master j"
  by (simp add: absent_master_def)

text \<open>
  Claim C7. \<open>RegisterWithServer\<close> calls the master at most 40 times. Every failed call
  is followed by a sleep of 250 ms before the next call. When call number \<open>k\<close> (from 0,
  below 40) is the first to succeed, exactly \<open>k + 1\<close> calls are made, the last event of
  the loop is the successful call and the worker is unchanged. When all 40 calls fail,
  40 calls are made and the worker is shut down: it is not active and its listener is
  closed.
\<close>

theorem RegisterWithServer_retries:
  "attempts (snd (RegisterWithServer callMaster w)) \<le> 40 \<and>
   (\<forall>k<40. callMaster k \<and> (\<forall>j<k. \<not> callMaster j) \<longrightarrow>
      RegisterWithServer callMaster w =
        (w, concat (map (failed_attempt (address w)) [0..<k]) @
            [Register (address w), Println ''Registered successfully!'']) \<and>
      attempts (snd (RegisterWithServer callMaster w)) = Suc k) \<and>
   ((\<forall>j<40. \<not> callMaster j) \<longrightarrow>
      RegisterWithServer callMaster w =
        (Shutdown w, concat (map (failed_attempt (address w)) [0..<40]) @
            [Println ''Failed to register. Shutting down.'']) \<and>
      attempts (snd (RegisterWithServer callMaster w)) = 40 \<and>
      \<not> IsActive (fst (RegisterWithServer callMaster w)) \<and>
      \<not> rpcListener (fst (RegisterWithServer callMaster w)))"
proof -
  have ok: "RegisterWithServer callMaster w =
        (w, concat (map (failed_attempt (address w)) [0..<k]) @
            [Register (address w), Println ''Registered successfully!''])"
    if "k < 40" "callMaster k" "\<forall>j<k. \<not> callMaster j" for k
  proof -
    have "register_loop callMaster (address w) 0 False [] =
      (True, [] @ concat (map (failed_attempt (address w)) [0..<k]) @ [Register (address w)])"
      using that by (intro register_loop_first_success) auto
    then show ?thesis by (simp add: RegisterWithServer_def)
  qed
  have fail: "RegisterWithServer callMaster w =
        (Shutdown w, concat (map (failed_attempt (address w)) [0..<40]) @
            [Println ''Failed to register. Shutting down.''])"
    if "\<forall>j<40. \<not> callMaster j"
  proof -
    have "register_loop callMaster (address w) 0 False [] =
      (False, [] @ concat (map (failed_attempt (address w)) [0..<40]))"
      using that by (intro register_loop_all_fail) auto
    then show ?thesis by (simp add: RegisterWithServer_def)
  qed
  have n_ok: "attempts (snd (RegisterWithServer callMaster w)) = Suc k"
    if "k < 40" "callMaster k" "\<forall>j<k. \<not> callMaster j" for k
    by (simp add: ok [OF that] attempts_append attempts_failed_run)
  have n_fail: "attempts (snd (RegisterWithServer callMaster w)) = 40"
    if "\<forall>j<40. \<not> callMaster j"
    by (simp add: fail [OF that] attempts_append attempts_failed_run)
  have bound: "attempts (snd (RegisterWithServer callMaster w)) \<le> 40"
  proof (cases "\<exists>j<40. callMaster j")
    case True
    from first_success_exists [OF True] obtain k where
      "k < 40" "callMaster k" "\<forall>j<k. \<not> callMaster j" by blast
    then show ?thesis using n_ok [of k] by simp
  next
    case False
    then show ?thesis using n_fail by simp
  qed
  have down: "\<not> IsActive (Shutdown w)" "\<not> rpcListener (Shutdown w)"
    by (simp_all add: IsActive_def Shutdown_def)
  show ?thesis
    using bound ok n_ok fail n_fail down by simp
qed

theorem RegisterWithServer_retries_witness:
  "RegisterWithServer late_master sample_worker =
     (sample_worker,
      [Register ''worker-1'', Sleep 250, Println ''Retrying registration attempt...'',
       Register ''worker-1'', Sleep 250,
       Register ''worker-1'', Println ''Registered successfully!'']) \<and>
   attempts (snd (RegisterWithServer absent_master sample_worker)) = 40 \<and>
   \<not> IsActive (fst (RegisterWithServer absent_master sample_worker)) \<and>
   \<not> rpcListener (fst (RegisterWithServer absent_master sample_worker))"
proof -
  have a: "address sample_worker = ''worker-1''" by (simp add: sample_worker_def)
  have b: "concat (map (failed_attempt ''worker-1'') [0..<2]) =
    [Register ''worker-1'', Sleep 250, Println ''Retrying registration attempt...'',
     Register ''worker-1'', Sleep 250]"
    by (simp add: failed_attempt_def upt_rec)
  from RegisterWithServer_retries [of late_master sample_worker] late_master_first
  have "RegisterWithServer late_master sample_worker =
        (sample_worker, concat (map (failed_attempt (address sample_worker)) [0..<2]) @
            [Register (address sample_worker), Println ''Registered successfully!''])"
    by simp
  moreover from RegisterWithServer_retries [of absent_master sample_worker] absent_master_never
  have "attempts (snd (RegisterWithServer absent_master sample_worker)) = 40 \<and>
      \<not> IsActive (fst (RegisterWithServer absent_master sample_worker)) \<and>
      \<not> rpcListener (fst (RegisterWithServer absent_master sample_worker))"
    by blast
  ultimately show ?thesis by (simp add: a b)
qed

section \<open>The map-before-reduce barrier\<close>

lemma map_tasks_are_map: "list_all is_map_task (map_tasks j)"
  by (auto simp: map_tasks_def list_all_iff)

lemma barrier_inv_init: "barrier_inv j (init j)"
  using map_tasks_are_map [of j] by (simp add: barrier_inv_def init_def list_all_iff)

lemma all_completed_nth: "all_completed sts \<Longrightarrow> i < length sts \<Longrightarrow> sts ! i = Completed"
  by (simp add: all_completed_def list_all_length)

lemma all_idle_nth: "list_all (\<lambda>st. st = Idle) sts \<Longrightarrow> i < length sts \<Longrightarrow> sts ! i = Idle"
  by (simp add: list_all_length)

lemma barrier_inv_step:
  assumes inv: "barrier_inv j s" and st: "step j s a = Some s'"
  shows "barrier_inv j s'"
proof (cases a)
  case (RegisterWorker w)
  with inv st show ?thesis by (auto simp: barrier_inv_def)
next
  case (Dispatch t w)
  with st obtain rest where q: "queue s = t # rest" and idle: "task_state s t = Some Idle"
    and s': "s' = set_task_state (s\<lparr>queue := rest, workers := (workers s)(w \<mapsto> Busy)\<rparr>) t (InProgress w)"
    by (auto split: list.splits if_splits)
  show ?thesis
  proof (cases t)
    case (MapTask f i)
    with idle have "i < length (mapState s)" "mapState s ! i = Idle" by (auto split: if_splits)
    then have "\<not> all_completed (mapState s)" using all_completed_nth by fastforce
    with inv have "phase s = MapPhase" by (auto simp: barrier_inv_def)
    with inv q s' MapTask show ?thesis by (auto simp: barrier_inv_def)
  next
    case (ReduceTask r)
    with q have "\<not> list_all is_map_task (queue s)" by simp
    with inv have "phase s \<noteq> MapPhase" by (auto simp: barrier_inv_def)
    with inv s' ReduceTask show ?thesis by (auto simp: barrier_inv_def)
  qed
next
  case (Success t w)
  with st have ip: "task_state s t = Some (InProgress w)"
    and s': "s' = set_task_state (s\<lparr>workers := (workers s)(w \<mapsto> WIdle)\<rparr>) t Completed"
    by (auto split: if_splits)
  show ?thesis
  proof (cases t)
    case (MapTask f i)
    with ip have "i < length (mapState s)" "mapState s ! i = InProgress w" by (auto split: if_splits)
    then have "\<not> all_completed (mapState s)" using all_completed_nth by fastforce
    with inv have "phase s = MapPhase" by (auto simp: barrier_inv_def)
    with inv s' MapTask show ?thesis by (auto simp: barrier_inv_def)
  next
    case (ReduceTask r)
    with ip have "r < length (reduceState s)" "reduceState s ! r = InProgress w" by (auto split: if_splits)
    then have "\<not> list_all (\<lambda>st. st = Idle) (reduceState s)" using all_idle_nth by fastforce
    with inv have "phase s \<noteq> MapPhase" by (auto simp: barrier_inv_def)
    with inv s' ReduceTask show ?thesis by (auto simp: barrier_inv_def)
  qed
next
  case (Failure t w)
  with st have ip: "task_state s t = Some (InProgress w)"
    and s': "s' = set_task_state (s\<lparr>workers := (workers s)(w \<mapsto> Dead), queue := queue s @ [t]\<rparr>) t Idle"
    by (auto split: if_splits)
  show ?thesis
  proof (cases t)
    case (MapTask f i)
    with ip have "i < length (mapState s)" "mapState s ! i = InProgress w" by (auto split: if_splits)
    then have "\<not> all_completed (mapState s)" using all_completed_nth by fastforce
    with inv have "phase s = MapPhase" by (auto simp: barrier_inv_def)
    with inv s' MapTask show ?thesis by (auto simp: barrier_inv_def)
  next
    case (ReduceTask r)
    with ip have "r < length (reduceState s)" "reduceState s ! r = InProgress w" by (auto split: if_splits)
    then have "\<not> list_all (\<lambda>st. st = Idle) (reduceState s)" using all_idle_nth by fastforce
    with inv have "phase s \<noteq> MapPhase" by (auto simp: barrier_inv_def)
    with inv s' ReduceTask show ?thesis by (auto simp: barrier_inv_def)
  qed
next
  case NextPhase
  with inv st show ?thesis
    by (auto simp: barrier_inv_def split: Phase.splits if_splits)
qed

lemma barrier_inv_run:
  "barrier_inv j s \<Longrightarrow> run j s as = Some s' \<Longrightarrow> barrier_inv j s'"
proof (induction as arbitrary: s)
  case Nil
  then show ?case by simp
next
  case (Cons a as)
  from Cons.prems(2) obtain s1 where s1: "step j s a = Some s1" and r: "run j s1 as = Some s'"
    by (auto split: option.splits)
  from barrier_inv_step [OF Cons.prems(1) s1] r show ?case by (rule Cons.IH)
qed

lemma run_sample: "run sample_job (init sample_job) sample_run = Some sample_sched"
  by (simp add: sample_run_def sample_job_def init_def map_tasks_def reduce_tasks_def
      all_completed_def sample_sched_def)

lemma dispatch_sample:
  "step sample_job sample_sched (Dispatch (ReduceTask 0) ''w2'') =
   Some (sample_sched\<lparr>queue := [], workers := [''w1'' \<mapsto> Dead, ''w2'' \<mapsto> Busy],
                      reduceState := [InProgress ''w2'']\<rparr>)"
  by (simp add: sample_sched_def)

lemma early_dispatch_refused:
  "run sample_job (init sample_job) [RegisterWorker ''w1'', Dispatch (ReduceTask 0) ''w1''] = None"
  by (simp add: sample_job_def init_def map_tasks_def)

text \<open>
  Claim C2. In every state that a run of the scheduler reaches from the initial state
  of a job, a reduce task can be dispatched to a worker only when every map task of the
  job is completed, and a reduce task is in progress or completed only when every map
  task is completed: no reduce task is dispatched while a map task is idle or in
  progress.
\<close>

theorem map_before_reduce_barrier:
  assumes "run j (init j) as = Some s"
  shows "(\<forall>r a s'. step j s (Dispatch (ReduceTask r) a) = Some s' \<longrightarrow>
            (\<forall>m<length (job_inputs j). mapState s ! m = Completed)) \<and>
         (\<forall>r<length (reduceState s). reduceState s ! r \<noteq> Idle \<longrightarrow>
            (\<forall>m<length (job_inputs j). mapState s ! m = Completed))"
proof -
  from barrier_inv_run [OF barrier_inv_init assms] have inv: "barrier_inv j s" .
  then have len: "length (mapState s) = length (job_inputs j)" by (simp add: barrier_inv_def)
  have fin: "\<forall>m<length (job_inputs j). mapState s ! m = Completed" if "phase s \<noteq> MapPhase"
    using inv that len by (auto simp: barrier_inv_def dest: all_completed_nth)
  have a: "\<forall>m<length (job_inputs j). mapState s ! m = Completed"
    if "step j s (Dispatch (ReduceTask r) a) = Some s'" for r a s'
  proof -
    from that obtain rest where "queue s = ReduceTask r # rest"
      by (auto split: list.splits if_splits)
    then have "\<not> list_all is_map_task (queue s)" by simp
    with inv have "phase s \<noteq> MapPhase" by (auto simp: barrier_inv_def)
    then show ?thesis by (rule fin)
  qed
  have b: "\<forall>m<length (job_inputs j). mapState s ! m = Completed"
    if "r < length (reduceState s)" "reduceState s ! r \<noteq> Idle" for r
  proof -
    from that have "\<not> list_all (\<lambda>st. st = Idle) (reduceState s)" using all_idle_nth by blast
    with inv have "phase s \<noteq> MapPhase" by (auto simp: barrier_inv_def)
    then show ?thesis by (rule fin)
  qed
  from a b show ?thesis by blast
qed

theorem map_before_reduce_barrier_witness:
  "run sample_job (init sample_job) sample_run = Some sample_sched \<and>
   step sample_job sample_sched (Dispatch (ReduceTask 0) ''w2'') =
     Some (sample_sched\<lparr>queue := [], workers := [''w1'' \<mapsto> Dead, ''w2'' \<mapsto> Busy],
                        reduceState := [InProgress ''w2'']\<rparr>) \<and>
   mapState sample_sched ! 0 = Completed"
proof -
  have "0 < length (job_inputs sample_job)" by (simp add: sample_job_def)
  with map_before_reduce_barrier [OF run_sample] dispatch_sample
  have "mapState sample_sched ! 0 = Completed" by blast
  with run_sample dispatch_sample show ?thesis by simp
qed

section \<open>Merge\<close>

lemma read_outputs_Some:
  "read_outputs pkg job fs rs = Some kvs \<Longrightarrow> kvs = outputs_read pkg job fs rs"
proof (induction rs arbitrary: kvs)
  case Nil
  then show ?case by (simp add: outputs_read_def)
next
  case (Cons r rs)
  from Cons.prems obtain es kvs' where es: "streams fs (ReduceOutputName pkg job (of_nat r)) = Some es"
    and r: "read_outputs pkg job fs rs = Some kvs'" and k: "kvs = records es @ kvs'"
    by (auto split: option.splits)
  from Cons.IH [OF r] es k show ?case by (simp add: outputs_read_def stream_of_def)
qed

lemma read_outputs_cong:
  "\<forall>r\<in>set rs. streams fs' (ReduceOutputName pkg job (of_nat r)) =
                  streams fs (ReduceOutputName pkg job (of_nat r)) \<Longrightarrow>
   read_outputs pkg job fs' rs = read_outputs pkg job fs rs"
  by (induction rs) (auto split: option.splits)

lemma merge_entries_keys: "map Key (merge_entries kvs) = sort (remdups (map Key kvs))"
  by (simp add: merge_entries_def comp_def)

lemma merge_entries_sorted: "sorted (map Key (merge_entries kvs))"
  by (simp add: merge_entries_keys)

lemma merge_entries_distinct: "distinct (map Key (merge_entries kvs))"
  by (simp add: merge_entries_keys)

lemma merge_entries_set: "set (map Key (merge_entries kvs)) = Key ` set kvs"
  by (simp add: merge_entries_keys)

lemma create_file_twice: "create_file (create_file fs f kvs) f kvs = create_file fs f kvs"
  by (simp add: create_file_def)

lemma sample_output_names:
  "ReduceOutputName (package ''out/'') ''job'' 0 = ''out/mr.job-res-0''"
  "ReduceOutputName (package ''out/'') ''job'' 1 = ''out/mr.job-res-1''"
  by (simp_all add: package_simps Itoa_def digits.simps digit_def)

lemma upt_two: "[0..<2] = [0, Suc 0]"
  by (simp add: upt_rec numeral_2_eq_2)

lemma read_outputs_sample:
  "read_outputs (package ''out/'') ''job'' sample_fs_reduced [0..<2] =
   Some [KeyValue ''c'' ''23'', KeyValue ''a'' ''14'', KeyValue ''b'' ''5'']"
  by (simp add: upt_two sample_output_names sample_fs_reduced_def)

lemma merge_entries_sample:
  "merge_entries [KeyValue ''c'' ''23'', KeyValue ''a'' ''14'', KeyValue ''b'' ''5''] =
   [KeyValue ''a'' ''14'', KeyValue ''b'' ''5'', KeyValue ''c'' ''23'']"
  by (simp add: merge_entries_def last_value_def less_eq_char_def less_char_def)

lemma Merge_sample:
  "Merge (package ''out/'') ''job'' 2 ''out/mr.job-merged'' sample_fs_reduced =
   Some (''out/mr.job-merged'', sample_fs_merged)"
  by (simp add: Merge_def read_outputs_sample merge_entries_sample sample_fs_merged_def)

lemma sample_names_differ:
  "\<forall>r<unat (2 :: uint). ReduceOutputName (package ''out/'') ''job'' (of_nat r) \<noteq> ''out/mr.job-merged''"
proof (intro allI impI)
  fix r assume "r < unat (2 :: uint)"
  then have "r = 0 \<or> r = Suc 0" by auto
  then show "ReduceOutputName (package ''out/'') ''job'' (of_nat r) \<noteq> ''out/mr.job-merged''"
    using sample_output_names by auto
qed

text \<open>
  Claim C3. A call of \<open>Merge\<close> that succeeds has read the output file of every reducer
  and has written one file whose entries are sorted by key in ascending byte-wise
  order, with exactly one entry for each key present in the output of some reducer.
  Calling \<open>Merge\<close> again without a write in between gives the same file system, hence
  the same merged file, provided that the merged file is not itself the output file of
  a reducer.
\<close>

theorem Merge_sorted_one_per_key:
  assumes "Merge pkg job numReducers mergeName fs = Some (path, fs')"
  shows "path = mergeName \<and>
    (\<exists>merged. streams fs' mergeName = Some (map Rec merged) \<and>
       sorted (map Key merged) \<and> distinct (map Key merged) \<and>
       set (map Key merged) = Key ` set (outputs_read pkg job fs [0..<unat numReducers])) \<and>
    ((\<forall>r<unat numReducers. ReduceOutputName pkg job (of_nat r) \<noteq> mergeName) \<longrightarrow>
       Merge pkg job numReducers mergeName fs' = Some (path, fs'))"
proof -
  from assms obtain kvs where rd: "read_outputs pkg job fs [0..<unat numReducers] = Some kvs"
    and p: "path = mergeName" and fs': "fs' = create_file fs mergeName (merge_entries kvs)"
    by (auto simp: Merge_def split: option.splits)
  from read_outputs_Some [OF rd] have kvs: "kvs = outputs_read pkg job fs [0..<unat numReducers]" .
  have a: "streams fs' mergeName = Some (map Rec (merge_entries kvs))"
    by (simp add: fs' create_file_def)
  have b: "set (map Key (merge_entries kvs)) = Key ` set (outputs_read pkg job fs [0..<unat numReducers])"
    using kvs merge_entries_set [of kvs] by simp
  have c: "Merge pkg job numReducers mergeName fs' = Some (path, fs')"
    if d: "\<forall>r<unat numReducers. ReduceOutputName pkg job (of_nat r) \<noteq> mergeName"
  proof -
    have "\<forall>r\<in>set [0..<unat numReducers]. streams fs' (ReduceOutputName pkg job (of_nat r)) =
                  streams fs (ReduceOutputName pkg job (of_nat r))"
      using d by (simp add: fs' create_file_def)
    then have "read_outputs pkg job fs' [0..<unat numReducers] =
        read_outputs pkg job fs [0..<unat numReducers]"
      by (rule read_outputs_cong)
    with rd have "read_outputs pkg job fs' [0..<unat numReducers] = Some kvs" by simp
    then show ?thesis by (simp add: Merge_def p fs' create_file_twice)
  qed
  from p a b c merge_entries_sorted [of kvs] merge_entries_distinct [of kvs] show ?thesis
    by blast
qed

theorem Merge_sorted_one_per_key_witness:
  "Merge (package ''out/'') ''job'' 2 ''out/mr.job-merged'' sample_fs_reduced =
     Some (''out/mr.job-merged'', sample_fs_merged) \<and>
   streams sample_fs_merged ''out/mr.job-merged'' =
     Some [Rec (KeyValue ''a'' ''14''), Rec (KeyValue ''b'' ''5''), Rec (KeyValue ''c'' ''23'')] \<and>
   Merge (package ''out/'') ''job'' 2 ''out/mr.job-merged'' sample_fs_merged =
     Some (''out/mr.job-merged'', sample_fs_merged)"
proof -
  from Merge_sorted_one_per_key [OF Merge_sample] sample_names_differ
  have "Merge (package ''out/'') ''job'' 2 ''out/mr.job-merged'' sample_fs_merged =
     Some (''out/mr.job-merged'', sample_fs_merged)" by blast
  then show ?thesis by (simp add: Merge_sample) (simp add: sample_fs_merged_def create_file_def)
qed

end
